theory Spec2Isabelle
  imports Main "HOL-Library.AList"
begin

section \<open>Data model of pull/github.go\<close>

text \<open>
  Go pointers that may be nil are options: \<open>*time.Time\<close> is \<open>time option\<close>,
  \<open>*githubv4.String\<close> is \<open>string option\<close>, \<open>*v4Actor\<close> is \<open>v4Actor option\<close>.
  A slice field that is compared with nil (the cache fields of GitHubContext) is a
  \<open>list option\<close>, with \<open>None\<close> for the nil slice. A \<open>[]*Commit\<close> is a list of
  commit values in which the position stands for the pointer: every element of the
  slice is allocated by its own call of ToCommit, so two positions never alias, and a
  \<open>*Commit\<close> held elsewhere (the variable head, the values of commitsBySHA) is the
  position of the commit in the slice.
\<close>

type_synonym time = int
type_synonym cursor = "string option"

record v4Actor =
  Type :: string
  Login :: string

record v4GitActor =
  User :: "v4Actor option"

record v4PageInfo =
  EndCursor :: cursor
  HasNextPage :: bool

record v4Commit =
  OID :: string
  v4Author :: v4GitActor
  v4Committer :: v4GitActor
  v4CommittedViaWeb :: bool
  PushedDate :: "time option"
  v4Parents :: "string list"

record Commit =
  SHA :: string
  Parents :: "string list"
  CommittedViaWeb :: bool
  Author :: string
  Committer :: string
  PushedAt :: "time option"

subsection \<open>Actor normalization\<close>

definition v4Actor_GetV3Login :: "v4Actor \<Rightarrow> string" where
  "v4Actor_GetV3Login a = (if Type a = ''Bot'' then Login a @ ''[bot]'' else Login a)"

definition v4GitActor_GetV3Login :: "v4GitActor \<Rightarrow> string" where
  "v4GitActor_GetV3Login ga =
     (case User ga of Some a \<Rightarrow> v4Actor_GetV3Login a | None \<Rightarrow> '''')"

definition ToCommit :: "v4Commit \<Rightarrow> Commit" where
  "ToCommit c =
     \<lparr>SHA = OID c,
      Parents = v4Parents c,
      CommittedViaWeb = v4CommittedViaWeb c,
      Author = v4GitActor_GetV3Login (v4Author c),
      Committer = v4GitActor_GetV3Login (v4Committer c),
      PushedAt = PushedDate c\<rparr>"

subsection \<open>Parent-chain inference\<close>

text \<open>
  \<open>commitsBySHA\<close> is a Go map from SHA to \<open>*Commit\<close>: an association list with
  distinct keys whose values are positions in the slice. Filling it in slice order with
  \<open>AList.update\<close> keeps, for a SHA that occurs twice, the later commit, as the
  assignment \<open>commitsBySHA[c.SHA] = c\<close> does; \<open>len\<close> is \<open>length\<close>, \<open>delete\<close> is
  \<open>AList.delete\<close>.
\<close>

definition index_commits :: "Commit list \<Rightarrow> (string \<times> nat) list" where
  "index_commits cs = fold (\<lambda>i m. AList.update (SHA (cs ! i)) i m) [0..<length cs] []"

text \<open>
  The loop of backfillPushedAt. The last argument counts the iterations that ran to
  the end of the loop body; it is returned beside the commits and read by nothing.
\<close>

function backfill_loop ::
  "(string \<times> nat) list \<Rightarrow> Commit list \<Rightarrow> string \<Rightarrow> nat \<Rightarrow> Commit list \<times> nat" where
  "backfill_loop m cs root n =
     (case map_of m root of
        None \<Rightarrow> (cs, n)
      | Some i \<Rightarrow>
          (case Parents (cs ! i) of
             [] \<Rightarrow> (cs, n)
           | p # _ \<Rightarrow>
               (case map_of m p of
                  None \<Rightarrow> (cs, n)
                | Some j \<Rightarrow>
                    backfill_loop (AList.delete root m)
                      (if PushedAt (cs ! j) = None
                       then cs[j := (cs ! j)\<lparr>PushedAt := PushedAt (cs ! i)\<rparr>]
                       else cs)
                      (SHA (cs ! j)) (Suc n))))"
  by pat_completeness auto
termination
proof (relation "measure (\<lambda>(m, cs, root, n). length m)")
  show "wf (measure (\<lambda>(m, cs, root, n). length m))" by simp
next
  fix m :: "(string \<times> nat) list" and cs :: "Commit list" and root :: string and n :: nat
    and i p ps j
  assume "map_of m root = Some i"
  then have "(root, i) \<in> set m"
    by (rule map_of_SomeD)
  moreover have "(k, v) \<in> set al \<Longrightarrow> length (AList.delete k al) < length al"
    for k :: string and v :: nat and al :: "(string \<times> nat) list"
    by (induct al) (auto simp: less_Suc_eq_le AList.length_delete_le)
  ultimately have "length (AList.delete root m) < length m" by blast
  then show "((AList.delete root m,
       if PushedAt (cs ! j) = None then cs[j := (cs ! j)\<lparr>PushedAt := PushedAt (cs ! i)\<rparr>] else cs,
       SHA (cs ! j), Suc n), m, cs, root, n) \<in> measure (\<lambda>(m, cs, root, n). length m)"
    by simp
qed

definition backfillPushedAt :: "Commit list \<Rightarrow> string \<Rightarrow> Commit list" where
  "backfillPushedAt commits headSHA =
     fst (backfill_loop (index_commits commits) commits headSHA 0)"

definition backfill_iterations :: "Commit list \<Rightarrow> string \<Rightarrow> nat" where
  "backfill_iterations commits headSHA =
     snd (backfill_loop (index_commits commits) commits headSHA 0)"

text \<open>
  Predicates for stating what the loop does. \<open>index_ok\<close>: the map has one entry per
  key, and each entry leads to a commit of the slice that carries the key as its SHA.
  \<open>first_parent_path m cs hs\<close>: each position of \<open>hs\<close> but the last has a first
  parent, and the map leads from that SHA to the next position of \<open>hs\<close>.
  \<open>inherits res cs hs\<close>: along \<open>hs\<close>, a commit whose pushed date was unset in
  \<open>cs\<close> has in \<open>res\<close> the pushed date of its child, and one whose pushed date was
  set has kept it. \<open>path_ends\<close>: the last position of \<open>hs\<close> has no parent, or
  its first parent is not in the map or is on \<open>hs\<close> already.
\<close>

definition index_ok :: "(string \<times> nat) list \<Rightarrow> Commit list \<Rightarrow> bool" where
  "index_ok m cs \<longleftrightarrow>
     distinct (map fst m) \<and> (\<forall>(s, i) \<in> set m. i < length cs \<and> SHA (cs ! i) = s)"

fun first_parent_path :: "(string \<times> nat) list \<Rightarrow> Commit list \<Rightarrow> nat list \<Rightarrow> bool" where
  "first_parent_path m cs (a # b # hs) =
     ((case Parents (cs ! a) of [] \<Rightarrow> False | p # _ \<Rightarrow> map_of m p = Some b) \<and>
      first_parent_path m cs (b # hs))"
| "first_parent_path m cs hs = True"

fun inherits :: "Commit list \<Rightarrow> Commit list \<Rightarrow> nat list \<Rightarrow> bool" where
  "inherits res cs (a # b # hs) =
     (PushedAt (res ! b) = (case PushedAt (cs ! b) of None \<Rightarrow> PushedAt (res ! a) | Some t \<Rightarrow> Some t) \<and>
      inherits res cs (b # hs))"
| "inherits res cs hs = True"

definition path_ends :: "(string \<times> nat) list \<Rightarrow> Commit list \<Rightarrow> nat list \<Rightarrow> bool" where
  "path_ends m cs hs =
     (case Parents (cs ! last hs) of
        [] \<Rightarrow> True
      | p # _ \<Rightarrow> (case map_of m p of None \<Rightarrow> True | Some j \<Rightarrow> j \<in> set hs))"

subsection \<open>Records of the two query protocols\<close>

text \<open>
  \<open>github.CommitFile\<close> is read through its getters only, which give the zero value
  for an absent field, so its fields are plain values. The declaration of FileStatus is
  not part of this file; \<open>FileStatusZero\<close> stands for the value of the variable
  \<open>status\<close> that no case of the switch assigned.
\<close>

record CommitFile =
  cf_Filename :: string
  cf_Status :: string
  cf_Additions :: int
  cf_Deletions :: int

datatype FileStatus = FileStatusZero | FileAdded | FileDeleted | FileModified

record File =
  Filename :: string
  Status :: FileStatus
  Additions :: int
  Deletions :: int

record files_page =
  fp_files :: "CommitFile list"
  NextPage :: int

record 'a connection =
  PageInfo :: v4PageInfo
  Nodes :: "'a list"

record history_node =
  hn_OID :: string
  hn_PushedDate :: "time option"

record v4IssueComment =
  ic_Author :: v4Actor
  ic_Body :: string
  ic_CreatedAt :: time

record v4PullRequestReview =
  rv_Author :: v4Actor
  rv_State :: string
  rv_Body :: string
  rv_SubmittedAt :: time

record Comment =
  c_CreatedAt :: time
  c_Author :: string
  c_Body :: string

record Review =
  r_CreatedAt :: time
  r_Author :: string
  r_State :: string
  r_Body :: string

record paged_data =
  pd_Comments :: "v4IssueComment connection"
  pd_Reviews :: "v4PullRequestReview connection"

record v4PullRequest =
  pr_Author :: v4Actor
  IsCrossRepository :: bool
  HeadRefOID :: string
  HeadRefName :: string
  HeadRepository_Name :: string
  HeadRepository_Owner :: v4Actor
  BaseRefName :: string

text \<open>
  The fields of GitHubContext that the accessors read or write. The four cache fields
  are nil until an accessor fills them.
\<close>

record GitHubContext =
  owner :: string
  repo :: string
  number :: int
  pr :: v4PullRequest
  files :: "File list option"
  commits :: "Commit list option"
  comments :: "Comment list option"
  reviews :: "Review list option"

text \<open>
  The remote platform, as far as this file sees it: for each kind of query the answers
  still to come, one per call, each a function of the page or cursor variables the call
  sends (\<open>None\<close> when the call returns an error); and the delays passed to
  \<open>time.Sleep\<close> so far, in milliseconds. A call that finds no answer left does not
  return; that outcome is the error \<open>NoResponse\<close>, which no path of the source
  produces.
\<close>

record world =
  ListFiles_responses :: "(int \<Rightarrow> files_page option) list"
  commits_responses :: "(cursor \<Rightarrow> v4Commit connection option) list"
  history_responses :: "(cursor \<Rightarrow> history_node connection option) list"
  paged_responses :: "(cursor \<Rightarrow> cursor \<Rightarrow> paged_data option) list"
  slept :: "nat list"

datatype error =
    FailedToListFiles
  | FailedToLoadData
  | FailedToLoadCommits
  | FailedToLoadPushedDates
  | TooManyFiles
  | TooManyCommits
  | HeadCommitMissing
  | PushedDateMissing
  | CommitsNotFound nat
  | NoResponse

definition MaxPullRequestFiles :: nat where
  "MaxPullRequestFiles = 300"

definition MaxPullRequestCommits :: nat where
  "MaxPullRequestCommits = 250"

definition commitLoadMaxAttempts :: nat where
  "commitLoadMaxAttempts = 5"

definition commitLoadBaseDelay :: nat where
  "commitLoadBaseDelay = 1000"

subsection \<open>Cursors and record mapping\<close>

text \<open>
  UpdateCursor returns whether there are more pages, and the value the named cursor
  variable has afterwards.
\<close>

definition UpdateCursor :: "v4PageInfo \<Rightarrow> cursor \<Rightarrow> bool \<times> cursor" where
  "UpdateCursor pi cur =
     (if HasNextPage pi \<and> EndCursor pi \<noteq> None then (True, EndCursor pi)
      else if EndCursor pi \<noteq> None then (False, EndCursor pi)
      else (False, cur))"

text \<open>
  \<open>strings.ToLower\<close> belongs to the Go library, not to this file: ToReview takes
  it as the parameter \<open>lower\<close>, and so does every function that maps reviews.
\<close>

definition ToReview :: "(string \<Rightarrow> string) \<Rightarrow> v4PullRequestReview \<Rightarrow> Review" where
  "ToReview lower r =
     \<lparr>r_CreatedAt = rv_SubmittedAt r,
      r_Author = v4Actor_GetV3Login (rv_Author r),
      r_State = lower (rv_State r),
      r_Body = rv_Body r\<rparr>"

definition ToComment :: "v4IssueComment \<Rightarrow> Comment" where
  "ToComment c =
     \<lparr>c_CreatedAt = ic_CreatedAt c,
      c_Author = v4Actor_GetV3Login (ic_Author c),
      c_Body = ic_Body c\<rparr>"

definition to_File :: "CommitFile \<Rightarrow> File" where
  "to_File f =
     \<lparr>Filename = cf_Filename f,
      Status = (if cf_Status f = ''added'' then FileAdded
                else if cf_Status f = ''deleted'' then FileDeleted
                else if cf_Status f = ''modified'' then FileModified
                else FileStatusZero),
      Additions = cf_Additions f,
      Deletions = cf_Deletions f\<rparr>"

text \<open>\<open>append\<close> and \<open>len\<close> on a slice that may be nil.\<close>

definition go_append :: "'a list option \<Rightarrow> 'a \<Rightarrow> 'a list option" where
  "go_append s x = Some ((case s of None \<Rightarrow> [] | Some xs \<Rightarrow> xs) @ [x])"

definition go_len :: "'a list option \<Rightarrow> nat" where
  "go_len s = (case s of None \<Rightarrow> 0 | Some xs \<Rightarrow> length xs)"

subsection \<open>ChangedFiles\<close>

fun ListFiles_loop ::
  "(int \<Rightarrow> files_page option) list \<Rightarrow> int \<Rightarrow> CommitFile list \<Rightarrow>
   (error + CommitFile list) \<times> (int \<Rightarrow> files_page option) list" where
  "ListFiles_loop [] page allFiles = (Inl NoResponse, [])"
| "ListFiles_loop (r # rs) page allFiles =
     (case r page of
        None \<Rightarrow> (Inl FailedToListFiles, rs)
      | Some p \<Rightarrow>
          if NextPage p = 0 then (Inr (allFiles @ fp_files p), rs)
          else ListFiles_loop rs (NextPage p) (allFiles @ fp_files p))"

definition ChangedFiles ::
  "GitHubContext \<Rightarrow> world \<Rightarrow> (error + File list option) \<times> GitHubContext \<times> world" where
  "ChangedFiles ghc w =
     (case (if files ghc = None
            then (case ListFiles_loop (ListFiles_responses w) 0 [] of
                    (Inl e, rs) \<Rightarrow> Inl (e, w\<lparr>ListFiles_responses := rs\<rparr>)
                  | (Inr allFiles, rs) \<Rightarrow>
                      Inr (ghc\<lparr>files := fold (\<lambda>f fs. go_append fs (to_File f)) allFiles (files ghc)\<rparr>,
                           w\<lparr>ListFiles_responses := rs\<rparr>))
            else Inr (ghc, w)) of
        Inl (e, w') \<Rightarrow> (Inl e, ghc, w')
      | Inr (ghc', w') \<Rightarrow>
          if go_len (files ghc') \<ge> MaxPullRequestFiles then (Inl TooManyFiles, ghc', w')
          else (Inr (files ghc'), ghc', w'))"

subsection \<open>Comments and reviews\<close>

fun loadPagedData_loop ::
  "(string \<Rightarrow> string) \<Rightarrow> (cursor \<Rightarrow> cursor \<Rightarrow> paged_data option) list \<Rightarrow> cursor \<Rightarrow> cursor \<Rightarrow>
   Comment list \<Rightarrow> Review list \<Rightarrow>
   (error + Comment list \<times> Review list) \<times> (cursor \<Rightarrow> cursor \<Rightarrow> paged_data option) list" where
  "loadPagedData_loop lower [] commentCursor reviewCursor cs rs = (Inl NoResponse, [])"
| "loadPagedData_loop lower (q # qs) commentCursor reviewCursor cs rs =
     (case q commentCursor reviewCursor of
        None \<Rightarrow> (Inl FailedToLoadData, qs)
      | Some d \<Rightarrow>
          (let cs' = cs @ map ToComment (Nodes (pd_Comments d));
               cu = UpdateCursor (PageInfo (pd_Comments d)) commentCursor;
               complete1 = (if \<not> fst cu then 1 else 0 :: nat);
               rs' = rs @ map (ToReview lower) (Nodes (pd_Reviews d));
               ru = UpdateCursor (PageInfo (pd_Reviews d)) reviewCursor;
               complete = (if \<not> fst ru then complete1 + 1 else complete1)
           in if complete = 2 then (Inr (cs', rs'), qs)
              else loadPagedData_loop lower qs (snd cu) (snd ru) cs' rs'))"

definition loadPagedData ::
  "(string \<Rightarrow> string) \<Rightarrow> GitHubContext \<Rightarrow> world \<Rightarrow> error option \<times> GitHubContext \<times> world" where
  "loadPagedData lower ghc w =
     (case loadPagedData_loop lower (paged_responses w) None None [] [] of
        (Inl e, qs) \<Rightarrow> (Some e, ghc, w\<lparr>paged_responses := qs\<rparr>)
      | (Inr (cs, rs), qs) \<Rightarrow>
          (None, ghc\<lparr>comments := Some cs, reviews := Some rs\<rparr>, w\<lparr>paged_responses := qs\<rparr>))"

definition Comments ::
  "(string \<Rightarrow> string) \<Rightarrow> GitHubContext \<Rightarrow> world \<Rightarrow> (error + Comment list option) \<times> GitHubContext \<times> world" where
  "Comments lower ghc w =
     (if comments ghc = None
      then (case loadPagedData lower ghc w of
              (Some e, ghc', w') \<Rightarrow> (Inl e, ghc', w')
            | (None, ghc', w') \<Rightarrow> (Inr (comments ghc'), ghc', w'))
      else (Inr (comments ghc), ghc, w))"

definition Reviews ::
  "(string \<Rightarrow> string) \<Rightarrow> GitHubContext \<Rightarrow> world \<Rightarrow> (error + Review list option) \<times> GitHubContext \<times> world" where
  "Reviews lower ghc w =
     (if reviews ghc = None
      then (case loadPagedData lower ghc w of
              (Some e, ghc', w') \<Rightarrow> (Inl e, ghc', w')
            | (None, ghc', w') \<Rightarrow> (Inr (reviews ghc'), ghc', w'))
      else (Inr (reviews ghc), ghc, w))"

subsection \<open>Loading commits\<close>

fun loadRawCommits_loop ::
  "(cursor \<Rightarrow> v4Commit connection option) list \<Rightarrow> cursor \<Rightarrow> v4Commit list \<Rightarrow>
   (error + v4Commit list) \<times> (cursor \<Rightarrow> v4Commit connection option) list" where
  "loadRawCommits_loop [] cur acc = (Inl NoResponse, [])"
| "loadRawCommits_loop (q # qs) cur acc =
     (case q cur of
        None \<Rightarrow> (Inl FailedToLoadCommits, qs)
      | Some d \<Rightarrow>
          if fst (UpdateCursor (PageInfo d) cur)
          then loadRawCommits_loop qs (snd (UpdateCursor (PageInfo d) cur)) (acc @ Nodes d)
          else (Inr (acc @ Nodes d), qs))"

definition loadRawCommits :: "GitHubContext \<Rightarrow> world \<Rightarrow> (error + v4Commit list) \<times> world" where
  "loadRawCommits ghc w =
     (case loadRawCommits_loop (commits_responses w) None [] of
        (r, qs) \<Rightarrow> (r, w\<lparr>commits_responses := qs\<rparr>))"

text \<open>
  One node of a history page: a commit found under the node's OID gets the node's
  pushed date, set or not, and leaves the map.
\<close>

definition match_node ::
  "history_node \<Rightarrow> (string \<times> nat) list \<times> Commit list \<Rightarrow> (string \<times> nat) list \<times> Commit list" where
  "match_node n s =
     (case s of (m, cs) \<Rightarrow>
        (case map_of m (hn_OID n) of
           Some i \<Rightarrow> (AList.delete (hn_OID n) m, cs[i := (cs ! i)\<lparr>PushedAt := hn_PushedDate n\<rparr>])
         | None \<Rightarrow> (m, cs)))"

fun loadPushedAt_loop ::
  "(cursor \<Rightarrow> history_node connection option) list \<Rightarrow> cursor \<Rightarrow>
   (string \<times> nat) list \<Rightarrow> Commit list \<Rightarrow>
   error option \<times> (string \<times> nat) list \<times> Commit list \<times>
   (cursor \<Rightarrow> history_node connection option) list" where
  "loadPushedAt_loop [] cur m cs =
     (if length m > 0 then (Some NoResponse, m, cs, []) else (None, m, cs, []))"
| "loadPushedAt_loop (q # qs) cur m cs =
     (if length m > 0
      then (case q cur of
              None \<Rightarrow> (Some FailedToLoadPushedDates, m, cs, qs)
            | Some d \<Rightarrow>
                if fst (UpdateCursor (PageInfo d) cur)
                then loadPushedAt_loop qs (snd (UpdateCursor (PageInfo d) cur))
                       (fst (fold match_node (Nodes d) (m, cs)))
                       (snd (fold match_node (Nodes d) (m, cs)))
                else (None, fst (fold match_node (Nodes d) (m, cs)),
                      snd (fold match_node (Nodes d) (m, cs)), qs))
      else (None, m, cs, q # qs))"

definition loadPushedAt ::
  "GitHubContext \<Rightarrow> world \<Rightarrow> Commit list \<Rightarrow> error option \<times> Commit list \<times> world" where
  "loadPushedAt ghc w cs =
     (case loadPushedAt_loop (history_responses w) None (index_commits cs) cs of
        (Some e, m, cs', qs) \<Rightarrow> (Some e, cs', w\<lparr>history_responses := qs\<rparr>)
      | (None, m, cs', qs) \<Rightarrow>
          if length m > 0
          then (Some (CommitsNotFound (length m)), cs', w\<lparr>history_responses := qs\<rparr>)
          else (None, cs', w\<lparr>history_responses := qs\<rparr>))"

text \<open>
  The scan for the head commit: the position of the last commit whose SHA is the head
  SHA, \<open>None\<close> for the nil pointer.
\<close>

definition find_head :: "Commit list \<Rightarrow> string \<Rightarrow> nat option" where
  "find_head cs sha =
     fold (\<lambda>i head. if SHA (cs ! i) = sha then Some i else head) [0..<length cs] None"

text \<open>
  One pass through the body of the loop of loadCommits, up to the test of the head's
  pushed date: it fails, returns the commits, or finds the pushed date missing.
\<close>

datatype attempt_result = Failed error | Loaded "Commit list" | Missing

definition loadCommits_attempt :: "GitHubContext \<Rightarrow> world \<Rightarrow> attempt_result \<times> world" where
  "loadCommits_attempt ghc w =
     (case loadRawCommits ghc w of
        (Inl e, w1) \<Rightarrow> (Failed e, w1)
      | (Inr rawCommits, w1) \<Rightarrow>
          (case find_head (map ToCommit rawCommits) (HeadRefOID (pr ghc)) of
             None \<Rightarrow> (Failed HeadCommitMissing, w1)
           | Some head \<Rightarrow>
               (case (if IsCrossRepository (pr ghc) \<and>
                         PushedAt (map ToCommit rawCommits ! head) = None
                      then loadPushedAt ghc w1 (map ToCommit rawCommits)
                      else (None, map ToCommit rawCommits, w1)) of
                  (Some e, cs, w2) \<Rightarrow> (Failed e, w2)
                | (None, cs, w2) \<Rightarrow>
                    if PushedAt (cs ! head) \<noteq> None then (Loaded cs, w2) else (Missing, w2))))"

definition Sleep :: "nat \<Rightarrow> world \<Rightarrow> world" where
  "Sleep d w = w\<lparr>slept := slept w @ [d]\<rparr>"

function loadCommits_loop ::
  "GitHubContext \<Rightarrow> world \<Rightarrow> nat \<Rightarrow> (error + Commit list) \<times> world" where
  "loadCommits_loop ghc w attempts =
     (case loadCommits_attempt ghc w of
        (Failed e, w') \<Rightarrow> (Inl e, w')
      | (Loaded cs, w') \<Rightarrow> (Inr cs, w')
      | (Missing, w') \<Rightarrow>
          if attempts + 1 \<ge> commitLoadMaxAttempts then (Inl PushedDateMissing, w')
          else loadCommits_loop ghc
                 (Sleep (2 ^ (attempts + 1 - 1) * commitLoadBaseDelay) w') (attempts + 1))"
  by pat_completeness auto
termination
  by (relation "measure (\<lambda>(ghc, w, attempts). commitLoadMaxAttempts - attempts)") auto

definition loadCommits :: "GitHubContext \<Rightarrow> world \<Rightarrow> (error + Commit list) \<times> world" where
  "loadCommits ghc w = loadCommits_loop ghc w 0"

definition Commits ::
  "GitHubContext \<Rightarrow> world \<Rightarrow> (error + Commit list option) \<times> GitHubContext \<times> world" where
  "Commits ghc w =
     (if commits ghc = None
      then (case loadCommits ghc w of
              (Inl e, w') \<Rightarrow> (Inl e, ghc, w')
            | (Inr cs, w') \<Rightarrow>
                if length cs \<ge> MaxPullRequestCommits then (Inl TooManyCommits, ghc, w')
                else (Inr (Some (backfillPushedAt cs (HeadRefOID (pr ghc)))),
                      ghc\<lparr>commits := Some (backfillPushedAt cs (HeadRefOID (pr ghc)))\<rparr>, w'))
      else (Inr (commits ghc), ghc, w))"

subsection \<open>A platform that pages a list\<close>

text \<open>
  Modelled from the spec: the graph query protocol of the remote platform, which is not
  part of this repository. A paginated field asked for \<open>first: 100, after: cursor\<close>
  returns the next at most 100 nodes after the cursor, the cursor of the last node
  returned (none on an empty page) and whether more nodes follow. The cursor of the
  node at position \<open>n\<close> is a string of length \<open>n\<close>.
\<close>

definition cursor_at :: "nat \<Rightarrow> string" where
  "cursor_at n = replicate n (CHR ''c'')"

definition connection_page :: "'a list \<Rightarrow> cursor \<Rightarrow> 'a connection" where
  "connection_page items after =
     (let start = (case after of None \<Rightarrow> 0 | Some s \<Rightarrow> length s);
          nodes = take 100 (drop start items)
      in \<lparr>PageInfo = \<lparr>EndCursor = (if nodes = [] then None
                                     else Some (cursor_at (start + length nodes))),
                       HasNextPage = (start + length nodes < length items)\<rparr>,
          Nodes = nodes\<rparr>)"

definition platform_paged ::
  "v4IssueComment list \<Rightarrow> v4PullRequestReview list \<Rightarrow> cursor \<Rightarrow> cursor \<Rightarrow> paged_data option" where
  "platform_paged cs rs commentCursor reviewCursor =
     Some \<lparr>pd_Comments = connection_page cs commentCursor,
           pd_Reviews = connection_page rs reviewCursor\<rparr>"

subsection \<open>Predicates for stating the retry schedule\<close>

text \<open>
  \<open>missing_run ghc n w\<close>: the platform is such that \<open>n\<close> passes of the loop of
  loadCommits in a row, started in \<open>w\<close>, each find the head's pushed date missing;
  the result is the platform after them. \<open>backoff a n\<close>: the \<open>n\<close> delays that
  start at \<open>2 ^ a\<close> base delays and double.
\<close>

fun missing_run :: "GitHubContext \<Rightarrow> nat \<Rightarrow> world \<Rightarrow> world option" where
  "missing_run ghc 0 w = Some w"
| "missing_run ghc (Suc n) w =
     (case loadCommits_attempt ghc w of
        (Missing, w') \<Rightarrow> missing_run ghc n w'
      | (_, w') \<Rightarrow> None)"

fun backoff :: "nat \<Rightarrow> nat \<Rightarrow> nat list" where
  "backoff a 0 = []"
| "backoff a (Suc n) = 2 ^ a * commitLoadBaseDelay # backoff (Suc a) n"

subsection \<open>The commits still without a pushed date\<close>

text \<open>
  Follows the spec's words, for comparison with the pending set of loadPushedAt: the
  SHAs of the commits whose pushed date is unset.
\<close>

definition missing_SHAs :: "Commit list \<Rightarrow> string list" where
  "missing_SHAs cs = map SHA (filter (\<lambda>c. PushedAt c = None) cs)"

subsection \<open>Counting round-trips\<close>

text \<open>
  \<open>cursor_after p\<close> is the cursor variable once \<open>p\<close> nodes have been read: nil at
  the start. \<open>ceil100 n\<close> is \<open>n / 100\<close> rounded up. \<open>paged_round_trips w w'\<close> is
  the number of combined comment and review queries answered between two states of the
  platform.
\<close>

definition cursor_after :: "nat \<Rightarrow> cursor" where
  "cursor_after p = (if p = 0 then None else Some (cursor_at p))"

definition ceil100 :: "nat \<Rightarrow> nat" where
  "ceil100 n = (n + 99) div 100"

definition paged_round_trips :: "world \<Rightarrow> world \<Rightarrow> nat" where
  "paged_round_trips w w' = length (paged_responses w) - length (paged_responses w')"

subsection \<open>Inputs for the worked instances\<close>

text \<open>
  A raw commit with no linked accounts; a last page and a page with a successor; a
  platform with no answers left; a pull request with empty caches; and the linear chain
  h, a, b, c in which only the head h has a pushed date.
\<close>

definition raw_commit :: "string \<Rightarrow> string list \<Rightarrow> time option \<Rightarrow> v4Commit" where
  "raw_commit sha ps t =
     \<lparr>OID = sha, v4Author = \<lparr>User = None\<rparr>, v4Committer = \<lparr>User = None\<rparr>,
      v4CommittedViaWeb = False, PushedDate = t, v4Parents = ps\<rparr>"

definition last_page :: "'a list \<Rightarrow> 'a connection" where
  "last_page ns = \<lparr>PageInfo = \<lparr>EndCursor = None, HasNextPage = False\<rparr>, Nodes = ns\<rparr>"

definition more_page :: "string \<Rightarrow> 'a list \<Rightarrow> 'a connection" where
  "more_page c ns = \<lparr>PageInfo = \<lparr>EndCursor = Some c, HasNextPage = True\<rparr>, Nodes = ns\<rparr>"

definition quiet :: world where
  "quiet = \<lparr>ListFiles_responses = [], commits_responses = [], history_responses = [],
            paged_responses = [], slept = []\<rparr>"

definition pull :: "bool \<Rightarrow> string \<Rightarrow> GitHubContext" where
  "pull cross sha =
     \<lparr>owner = ''o'', repo = ''r'', number = 1,
      pr = \<lparr>pr_Author = \<lparr>Type = ''User'', Login = ''alice''\<rparr>, IsCrossRepository = cross,
            HeadRefOID = sha, HeadRefName = ''topic'', HeadRepository_Name = ''r'',
            HeadRepository_Owner = \<lparr>Type = ''User'', Login = ''alice''\<rparr>, BaseRefName = ''main''\<rparr>,
      files = None, commits = None, comments = None, reviews = None\<rparr>"

definition chain4 :: "v4Commit list" where
  "chain4 = [raw_commit ''c'' [] None, raw_commit ''b'' [''c''] None,
             raw_commit ''a'' [''b''] None, raw_commit ''h'' [''a'', ''x''] (Some 42)]"

definition chain4_page :: "cursor \<Rightarrow> v4Commit connection option" where
  "chain4_page = (\<lambda>cur. Some (last_page chain4))"

definition cycle :: "v4Commit list" where
  "cycle = [raw_commit ''a'' [''b''] None, raw_commit ''b'' [''c''] None,
            raw_commit ''c'' [''a''] None, raw_commit ''a'' [''b''] (Some 9)]"

definition unset_head :: "cursor \<Rightarrow> v4Commit connection option" where
  "unset_head = (\<lambda>cur. Some (last_page [raw_commit ''p'' [] None, raw_commit ''h'' [''p''] None]))"

definition set_head :: "cursor \<Rightarrow> v4Commit connection option" where
  "set_head = (\<lambda>cur. Some (last_page [raw_commit ''p'' [] None, raw_commit ''h'' [''p''] (Some 42)]))"

definition headless :: "cursor \<Rightarrow> v4Commit connection option" where
  "headless = (\<lambda>cur. Some (last_page [raw_commit ''p'' [] None, raw_commit ''q'' [''p''] None]))"

definition some_history :: "cursor \<Rightarrow> history_node connection option" where
  "some_history = (\<lambda>cur. Some (last_page [\<lparr>hn_OID = ''h'', hn_PushedDate = Some 7\<rparr>]))"

definition a_file :: CommitFile where
  "a_file = \<lparr>cf_Filename = ''f.go'', cf_Status = ''added'', cf_Additions = 1, cf_Deletions = 0\<rparr>"

definition one_page_of_files :: "nat \<Rightarrow> int \<Rightarrow> files_page option" where
  "one_page_of_files n = (\<lambda>page. Some \<lparr>fp_files = replicate n a_file, NextPage = 0\<rparr>)"

definition long_history :: "nat \<Rightarrow> cursor \<Rightarrow> v4Commit connection option" where
  "long_history n =
     (\<lambda>cur. Some (last_page (replicate n (raw_commit ''p'' [] None) @ [raw_commit ''h'' [''p''] (Some 42)])))"

definition dated_parent :: "v4Commit list" where
  "dated_parent = [raw_commit ''p'' [] (Some 5), raw_commit ''h'' [''p''] None]"

definition undated :: "v4Commit list" where
  "undated = [raw_commit ''p'' [] None, raw_commit ''h'' [''p''] None]"

definition node_h :: history_node where
  "node_h = \<lparr>hn_OID = ''h'', hn_PushedDate = Some 7\<rparr>"

definition node_undated :: history_node where
  "node_undated = \<lparr>hn_OID = ''h'', hn_PushedDate = None\<rparr>"

definition node_p :: history_node where
  "node_p = \<lparr>hn_OID = ''p'', hn_PushedDate = Some 6\<rparr>"

definition history_h :: "cursor \<Rightarrow> history_node connection option" where
  "history_h = (\<lambda>cur. Some (more_page ''c1'' [node_h]))"

definition history_p :: "cursor \<Rightarrow> history_node connection option" where
  "history_p = (\<lambda>cur. Some (more_page ''c2'' [node_p]))"

definition history_both :: "cursor \<Rightarrow> history_node connection option" where
  "history_both = (\<lambda>cur. Some (last_page [node_p, node_h]))"

definition history_end :: "cursor \<Rightarrow> history_node connection option" where
  "history_end = (\<lambda>cur. Some (last_page []))"

text \<open>
  An instance of the parameter \<open>lower\<close> for the worked instances: the letters A to Z
  go to a to z and every other character stays. On strings of ASCII characters, which
  the state names of the reviews are, this is the value of \<open>strings.ToLower\<close>; on
  other strings it is not, and nothing is proved from it.
\<close>

definition ascii_ToLower :: "string \<Rightarrow> string" where
  "ascii_ToLower s =
     map (\<lambda>c. let n = (of_char c :: nat) in if 65 \<le> n \<and> n \<le> 90 then char_of (n + 32) else c) s"

definition a_comment :: v4IssueComment where
  "a_comment = \<lparr>ic_Author = \<lparr>Type = ''User'', Login = ''alice''\<rparr>, ic_Body = ''ok'', ic_CreatedAt = 1\<rparr>"

definition a_review :: v4PullRequestReview where
  "a_review = \<lparr>rv_Author = \<lparr>Type = ''Bot'', Login = ''deploy-bot''\<rparr>, rv_State = ''APPROVED'',
               rv_Body = ''lgtm'', rv_SubmittedAt = 2\<rparr>"

definition busy :: world where
  "busy = quiet\<lparr>ListFiles_responses := [one_page_of_files 2],
                 commits_responses := [headless],
                 paged_responses := [platform_paged [a_comment] [a_review]]\<rparr>"

section \<open>Lemmas\<close>

subsection \<open>The index and the loop of backfillPushedAt\<close>

declare backfill_loop.simps [simp del]

lemma index_ok_update:
  assumes "index_ok m cs" "i < length cs"
  shows "index_ok (AList.update (SHA (cs ! i)) i m) cs"
proof -
  have "set (AList.update k v al) \<subseteq> insert (k, v) (set al)" for k :: string and v :: nat and al
    by (induct al) auto
  then have sub: "\<And>a b. (a, b) \<in> set (AList.update (SHA (cs ! i)) i m) \<Longrightarrow>
      (a, b) = (SHA (cs ! i), i) \<or> (a, b) \<in> set m"
    by blast
  from assms show ?thesis
    unfolding index_ok_def by (auto simp: AList.distinct_update dest!: sub)
qed

lemma index_fold:
  "n \<le> length cs \<Longrightarrow>
   index_ok (fold (\<lambda>i m. AList.update (SHA (cs ! i)) i m) [0..<n] []) cs \<and>
   fst ` set (fold (\<lambda>i m. AList.update (SHA (cs ! i)) i m) [0..<n] []) = SHA ` set (take n cs)"
proof (induct n)
  case 0
  then show ?case by (simp add: index_ok_def)
next
  case (Suc n)
  then show ?case
    by (auto simp: index_ok_update AList.dom_update take_Suc_conv_app_nth)
qed

lemma index_commits_ok: "index_ok (index_commits cs) cs"
  using index_fold [of "length cs" cs] by (simp add: index_commits_def)

lemma index_commits_keys: "fst ` set (index_commits cs) = SHA ` set cs"
  using index_fold [of "length cs" cs] by (simp add: index_commits_def)

lemma length_index_commits: "length (index_commits cs) = card (SHA ` set cs)"
proof -
  have "distinct (map fst (index_commits cs))"
    using index_commits_ok [of cs] by (simp add: index_ok_def)
  then have "card (set (map fst (index_commits cs))) = length (index_commits cs)"
    using distinct_card by fastforce
  then show ?thesis by (simp add: index_commits_keys)
qed

lemma backfill_loop_iterations:
  "snd (backfill_loop m cs root n) \<le> n + length m"
proof (induct m cs root n rule: backfill_loop.induct)
  case (1 m cs root n)
  show ?case
  proof (cases "map_of m root")
    case None
    then show ?thesis by (subst backfill_loop.simps) simp
  next
    case (Some i)
    then have "(root, i) \<in> set m" by (rule map_of_SomeD)
    then have less: "length (AList.delete root m) < length m"
      by (induct m) (auto simp: less_Suc_eq_le AList.length_delete_le)
    show ?thesis
    proof (cases "Parents (cs ! i)")
      case Nil
      with Some show ?thesis by (subst backfill_loop.simps) simp
    next
      case (Cons p ps)
      show ?thesis
      proof (cases "map_of m p")
        case None
        with Some Cons show ?thesis by (subst backfill_loop.simps) simp
      next
        case (Some j)
        note IH = "1.hyps" [OF \<open>map_of m root = Some i\<close> Cons Some]
        from IH less \<open>map_of m root = Some i\<close> Cons Some show ?thesis
          by (subst backfill_loop.simps) simp
      qed
    qed
  qed
qed

lemma backfill_loop_absent:
  "map_of m root = None \<Longrightarrow> backfill_loop m cs root n = (cs, n)"
  by (subst backfill_loop.simps) simp

lemma backfill_loop_no_parent:
  "map_of m root = Some i \<Longrightarrow> Parents (cs ! i) = [] \<Longrightarrow> backfill_loop m cs root n = (cs, n)"
  by (subst backfill_loop.simps) simp

lemma backfill_loop_parent_absent:
  "map_of m root = Some i \<Longrightarrow> Parents (cs ! i) = p # ps \<Longrightarrow> map_of m p = None \<Longrightarrow>
   backfill_loop m cs root n = (cs, n)"
  by (subst backfill_loop.simps) simp

lemma backfill_loop_step:
  "map_of m root = Some i \<Longrightarrow> Parents (cs ! i) = p # ps \<Longrightarrow> map_of m p = Some j \<Longrightarrow>
   backfill_loop m cs root n =
     backfill_loop (AList.delete root m)
       (if PushedAt (cs ! j) = None then cs[j := (cs ! j)\<lparr>PushedAt := PushedAt (cs ! i)\<rparr>] else cs)
       (SHA (cs ! j)) (Suc n)"
  by (subst backfill_loop.simps) simp

lemma backfill_loop_cases:
  obtains (stop) "backfill_loop m cs root n = (cs, n)"
  | (step) i p ps j where "map_of m root = Some i" "Parents (cs ! i) = p # ps" "map_of m p = Some j"
  by (metis backfill_loop_absent backfill_loop_no_parent backfill_loop_parent_absent
        list.exhaust option.exhaust)

lemma index_ok_delete: "index_ok m cs \<Longrightarrow> index_ok (AList.delete k m) cs"
  unfolding index_ok_def using AList.distinct_delete [of m k]
  by (auto simp: AList.delete_eq simp del: AList.distinct_delete)

lemma index_ok_lookup:
  "index_ok m cs \<Longrightarrow> map_of m s = Some i \<Longrightarrow> i < length cs \<and> SHA (cs ! i) = s"
  unfolding index_ok_def by (auto dest!: map_of_SomeD)

lemma index_ok_set_PushedAt:
  "index_ok m cs \<Longrightarrow> index_ok m (cs[j := (cs ! j)\<lparr>PushedAt := t\<rparr>])"
proof -
  assume ok: "index_ok m cs"
  have "SHA (cs[j := (cs ! j)\<lparr>PushedAt := t\<rparr>] ! i) = SHA (cs ! i)" if "i < length cs" for i
    using that by (cases "i = j") simp_all
  with ok show ?thesis
    unfolding index_ok_def by fastforce
qed

lemma backfill_loop_frame:
  "i \<notin> snd ` set m \<Longrightarrow> fst (backfill_loop m cs root n) ! i = cs ! i"
proof (induct m cs root n rule: backfill_loop.induct)
  case (1 m cs root n)
  show ?case
  proof (cases rule: backfill_loop_cases [where m = m and cs = cs and root = root and n = n])
    case stop
    then show ?thesis by simp
  next
    case (step h p ps j)
    from step(3) have "j \<in> snd ` set m"
      by (metis map_of_SomeD snd_conv image_eqI)
    with "1.prems" have ne: "i \<noteq> j" by auto
    have "i \<notin> snd ` set (AList.delete root m)"
      using "1.prems" by (auto simp: AList.delete_eq)
    from "1.hyps" [OF step this] ne show ?thesis
      by (simp add: backfill_loop_step [OF step])
  qed
qed

lemma backfill_loop_only_PushedAt:
  "map (\<lambda>c. c\<lparr>PushedAt := None\<rparr>) (fst (backfill_loop m cs root n)) =
   map (\<lambda>c. c\<lparr>PushedAt := None\<rparr>) cs"
proof (induct m cs root n rule: backfill_loop.induct)
  case (1 m cs root n)
  show ?case
  proof (cases rule: backfill_loop_cases [where m = m and cs = cs and root = root and n = n])
    case stop
    then show ?thesis by simp
  next
    case (step h p ps j)
    have "map (\<lambda>c. c\<lparr>PushedAt := None\<rparr>)
            (if PushedAt (cs ! j) = None then cs[j := (cs ! j)\<lparr>PushedAt := PushedAt (cs ! h)\<rparr>] else cs) =
          map (\<lambda>c. c\<lparr>PushedAt := None\<rparr>) cs"
    proof (cases "j < length cs")
      case True
      then show ?thesis by (simp add: map_update list_update_same_conv)
    next
      case False
      then have "cs[j := (cs ! j)\<lparr>PushedAt := PushedAt (cs ! h)\<rparr>] = cs"
        by (intro list_update_beyond) simp
      then show ?thesis by simp
    qed
    with "1.hyps" [OF step] show ?thesis
      by (simp only: backfill_loop_step [OF step])
  qed
qed


lemma set_PushedAt_other:
  "SHA ((if b then cs[j := (cs ! j)\<lparr>PushedAt := t\<rparr>] else cs) ! i) = SHA (cs ! i) \<and>
   Parents ((if b then cs[j := (cs ! j)\<lparr>PushedAt := t\<rparr>] else cs) ! i) = Parents (cs ! i)"
proof (cases "j < length cs")
  case True
  then show ?thesis by (cases "i = j") simp_all
next
  case False
  then have "cs[j := (cs ! j)\<lparr>PushedAt := t\<rparr>] = cs"
    by (intro list_update_beyond) simp
  then show ?thesis by simp
qed

lemma index_ok_step:
  "index_ok m cs \<Longrightarrow>
   index_ok (AList.delete k m) (if b then cs[j := (cs ! j)\<lparr>PushedAt := t\<rparr>] else cs)"
  by (simp add: index_ok_delete index_ok_set_PushedAt)

lemma index_ok_value_unique:
  assumes "index_ok m cs" "map_of m root = Some h"
  shows "h \<notin> snd ` set (AList.delete root m)"
proof
  assume "h \<in> snd ` set (AList.delete root m)"
  then obtain s where s: "(s, h) \<in> set m" "s \<noteq> root"
    by (auto simp: AList.delete_eq)
  with assms(1) have "SHA (cs ! h) = s" unfolding index_ok_def by auto
  moreover from assms have "SHA (cs ! h) = root" by (simp add: index_ok_lookup)
  ultimately show False using s(2) by simp
qed

lemma backfill_loop_root:
  assumes "index_ok m cs" "map_of m root = Some h"
  shows "PushedAt (fst (backfill_loop m cs root n) ! h) = PushedAt (cs ! h)"
proof (cases rule: backfill_loop_cases [where m = m and cs = cs and root = root and n = n])
  case stop
  then show ?thesis by simp
next
  case (step i p ps j)
  with assms have [simp]: "i = h" by simp
  have h: "h < length cs" using assms by (simp add: index_ok_lookup)
  let ?cs = "if PushedAt (cs ! j) = None then cs[j := (cs ! j)\<lparr>PushedAt := PushedAt (cs ! i)\<rparr>] else cs"
  have "fst (backfill_loop (AList.delete root m) ?cs (SHA (cs ! j)) (Suc n)) ! h = ?cs ! h"
    by (rule backfill_loop_frame) (rule index_ok_value_unique [OF assms])
  moreover have "PushedAt (?cs ! h) = PushedAt (cs ! h)"
    using h by (cases "j = h") simp_all
  ultimately show ?thesis
    by (simp only: backfill_loop_step [OF step])
qed

lemma first_parent_path_step:
  assumes "first_parent_path m cs xs" "h \<notin> set xs" "map_of m root = Some h"
    and "\<And>a. Parents (cs' ! a) = Parents (cs ! a)"
  shows "first_parent_path (AList.delete root m) cs' xs"
  using assms(1,2)
proof (induct xs rule: induct_list012)
  case (3 a b hs)
  then obtain p ps where p: "Parents (cs ! a) = p # ps" "map_of m p = Some b"
    by (auto split: list.splits)
  from 3 have "b \<noteq> h" by auto
  with p(2) assms(3) have "p \<noteq> root" by auto
  with p 3 assms(4) show ?case
    by (simp add: AList.delete_conv')
qed simp_all

lemma inherits_cong:
  "\<forall>b\<in>set hs. PushedAt (cs' ! b) = PushedAt (cs ! b) \<Longrightarrow>
   inherits res cs' (a # hs) = inherits res cs (a # hs)"
  by (induct hs arbitrary: a) simp_all


lemma backfill_loop_chain:
  assumes "index_ok m cs" "distinct (h # hs)" "map_of m (SHA (cs ! h)) = Some h"
    and "first_parent_path m cs (h # hs)"
  shows "inherits (fst (backfill_loop m cs (SHA (cs ! h)) n)) cs (h # hs) \<and>
         (path_ends m cs (h # hs) \<longrightarrow>
            (\<forall>i. i \<notin> set (h # hs) \<longrightarrow> fst (backfill_loop m cs (SHA (cs ! h)) n) ! i = cs ! i))"
  using assms
proof (induct hs arbitrary: m cs h n)
  case Nil
  let ?root = "SHA (cs ! h)"
  have "path_ends m cs [h] \<Longrightarrow> fst (backfill_loop m cs ?root n) = cs"
  proof (cases rule: backfill_loop_cases [where m = m and cs = cs and root = ?root and n = n])
    case stop
    then show ?thesis by simp
  next
    case (step i p ps j)
    assume ends: "path_ends m cs [h]"
    from step Nil have [simp]: "i = h" by simp
    from ends step have [simp]: "j = h" by (simp add: path_ends_def)
    have "(cs ! h)\<lparr>PushedAt := PushedAt (cs ! h)\<rparr> = cs ! h" by simp
    then have "cs[h := (cs ! h)\<lparr>PushedAt := PushedAt (cs ! h)\<rparr>] = cs"
      by (simp only: list_update_id)
    then have same: "(if PushedAt (cs ! j) = None then cs[j := (cs ! j)\<lparr>PushedAt := PushedAt (cs ! i)\<rparr>] else cs) = cs"
      by (simp only: \<open>i = h\<close> \<open>j = h\<close> if_cancel)
    have "map_of (AList.delete ?root m) ?root = None"
      by (simp add: AList.delete_conv')
    then show ?thesis
      by (simp only: backfill_loop_step [OF step] same) (simp add: backfill_loop_absent)
  qed
  then show ?case by simp
next
  case (Cons h' hs)
  let ?root = "SHA (cs ! h)"
  from Cons.prems(4) obtain p ps where p: "Parents (cs ! h) = p # ps" "map_of m p = Some h'"
    by (auto split: list.splits)
  note step = Cons.prems(3) p
  let ?cs = "if PushedAt (cs ! h') = None then cs[h' := (cs ! h')\<lparr>PushedAt := PushedAt (cs ! h)\<rparr>] else cs"
  let ?m = "AList.delete ?root m"
  let ?res = "fst (backfill_loop m cs ?root n)"
  have res: "?res = fst (backfill_loop ?m ?cs (SHA (cs ! h')) (Suc n))"
    by (simp only: backfill_loop_step [OF step])
  have h': "h' < length cs" "SHA (cs ! h') = p"
    using index_ok_lookup [OF Cons.prems(1) p(2)] by simp_all
  have ne: "h \<noteq> h'" using Cons.prems(2) by simp
  with p(2) Cons.prems(3) have p_root: "p \<noteq> ?root" by auto
  have other: "i \<noteq> h' \<Longrightarrow> ?cs ! i = cs ! i" for i by simp
  have sha: "SHA (?cs ! i) = SHA (cs ! i)" and par: "Parents (?cs ! i) = Parents (cs ! i)" for i
    using set_PushedAt_other [of "PushedAt (cs ! h') = None" cs h' "PushedAt (cs ! h)" i] by simp_all
  have ok': "index_ok ?m ?cs"
    by (rule index_ok_step [OF Cons.prems(1)])
  have d': "distinct (h' # hs)" using Cons.prems(2) by simp
  have look': "map_of ?m (SHA (?cs ! h')) = Some h'"
    using p(2) p_root h'(2) by (simp only: sha) (simp add: AList.delete_conv')
  have "first_parent_path m cs (h' # hs)" using Cons.prems(4) by simp
  then have path': "first_parent_path ?m ?cs (h' # hs)"
    using Cons.prems(2) Cons.prems(3) par by (intro first_parent_path_step [where h = h]) auto
  note IH = Cons.hyps [OF ok' d' look' path', of "Suc n", unfolded sha h'(2) [symmetric], folded res]
  have head: "PushedAt (?res ! h) = PushedAt (cs ! h)"
    by (rule backfill_loop_root [OF Cons.prems(1) Cons.prems(3)])
  have "PushedAt (?res ! h') = PushedAt (?cs ! h')"
    unfolding res using backfill_loop_root [OF ok' look', of "Suc n"] by (simp only: sha)
  also have "\<dots> = (case PushedAt (cs ! h') of None \<Rightarrow> PushedAt (cs ! h) | Some t \<Rightarrow> Some t)"
    using h'(1) by (auto split: option.splits)
  finally have pair: "PushedAt (?res ! h') =
      (case PushedAt (cs ! h') of None \<Rightarrow> PushedAt (?res ! h) | Some t \<Rightarrow> Some t)"
    by (simp only: head)
  have "\<forall>b\<in>set hs. PushedAt (?cs ! b) = PushedAt (cs ! b)"
  proof
    fix b assume "b \<in> set hs"
    with d' have "b \<noteq> h'" by auto
    then show "PushedAt (?cs ! b) = PushedAt (cs ! b)" using other [of b] by simp
  qed
  then have "inherits ?res ?cs (h' # hs) = inherits ?res cs (h' # hs)"
    by (rule inherits_cong)
  with IH pair have inh: "inherits ?res cs (h # h' # hs)" by simp
  have frame: "?res ! i = cs ! i" if ends: "path_ends m cs (h # h' # hs)" and i: "i \<notin> set (h # h' # hs)" for i
  proof -
    have "path_ends ?m ?cs (h' # hs)"
    proof (cases "Parents (cs ! last (h' # hs))")
      case Nil
      then show ?thesis unfolding path_ends_def by (simp only: par) simp
    next
      case (Cons q qs)
      show ?thesis
      proof (cases "q = ?root")
        case True
        with Cons show ?thesis
          unfolding path_ends_def by (simp only: par) (simp add: AList.delete_conv')
      next
        case False
        have "j \<noteq> h" if "map_of m q = Some j" for j
          using that False index_ok_lookup [OF Cons.prems(1) that] by auto
        with ends Cons False show ?thesis
          unfolding path_ends_def
          by (simp only: par) (auto simp: AList.delete_conv' split: option.splits)
      qed
    qed
    with IH i have "?res ! i = ?cs ! i" by simp
    with i show ?thesis by simp
  qed
  from inh frame show ?case by blast
qed

lemma inherits_all_set:
  "inherits res cs (a # hs) \<Longrightarrow> PushedAt (res ! a) = Some t \<Longrightarrow>
   \<forall>h\<in>set hs. PushedAt (cs ! h) = None \<Longrightarrow> \<forall>h\<in>set (a # hs). PushedAt (res ! h) = Some t"
  by (induct hs arbitrary: a) auto

lemma backfillPushedAt_chain:
  assumes "map_of (index_commits cs) headSHA = Some h" "distinct (h # hs)"
    and "first_parent_path (index_commits cs) cs (h # hs)"
  shows "PushedAt (backfillPushedAt cs headSHA ! h) = PushedAt (cs ! h)"
    and "inherits (backfillPushedAt cs headSHA) cs (h # hs)"
    and "path_ends (index_commits cs) cs (h # hs) \<Longrightarrow> i \<notin> set (h # hs) \<Longrightarrow>
         backfillPushedAt cs headSHA ! i = cs ! i"
proof -
  have ok: "index_ok (index_commits cs) cs" by (rule index_commits_ok)
  from index_ok_lookup [OF ok assms(1)] have sha: "SHA (cs ! h) = headSHA" by simp
  from assms(1) have look: "map_of (index_commits cs) (SHA (cs ! h)) = Some h"
    by (simp only: sha)
  show "PushedAt (backfillPushedAt cs headSHA ! h) = PushedAt (cs ! h)"
    unfolding backfillPushedAt_def by (rule backfill_loop_root [OF ok assms(1)])
  note chain = backfill_loop_chain [OF ok assms(2) look assms(3), of 0, unfolded sha,
      folded backfillPushedAt_def]
  from chain show "inherits (backfillPushedAt cs headSHA) cs (h # hs)" by simp
  from chain show "path_ends (index_commits cs) cs (h # hs) \<Longrightarrow> i \<notin> set (h # hs) \<Longrightarrow>
         backfillPushedAt cs headSHA ! i = cs ! i" by simp
qed

lemma Commits_runs_backfill:
  assumes "commits ghc = None" "loadCommits ghc w = (Inr cs, w')" "length cs < MaxPullRequestCommits"
  shows "Commits ghc w =
           (Inr (Some (backfillPushedAt cs (HeadRefOID (pr ghc)))),
            ghc\<lparr>commits := Some (backfillPushedAt cs (HeadRefOID (pr ghc)))\<rparr>, w')"
  using assms by (simp add: Commits_def)

lemmas ex_defs = raw_commit_def last_page_def more_page_def quiet_def pull_def chain4_def

subsection \<open>Loading commits\<close>

declare loadCommits_loop.simps [simp del]

lemma find_head_fold:
  "n \<le> length cs \<Longrightarrow>
   (case fold (\<lambda>i head. if SHA (cs ! i) = sha then Some i else head) [0..<n] None of
      None \<Rightarrow> sha \<notin> SHA ` set (take n cs)
    | Some i \<Rightarrow> i < n \<and> SHA (cs ! i) = sha \<and> (\<forall>j. i < j \<and> j < n \<longrightarrow> SHA (cs ! j) \<noteq> sha))"
proof (induct n)
  case 0
  then show ?case by simp
next
  case (Suc n)
  then show ?case
    by (auto simp: take_Suc_conv_app_nth less_Suc_eq split: option.splits)
qed

lemma find_head_None: "find_head cs sha = None \<longleftrightarrow> sha \<notin> SHA ` set cs"
  using find_head_fold [of "length cs" cs sha]
  by (auto simp: find_head_def split: option.splits)

lemma find_head_Some:
  "find_head cs sha = Some i \<Longrightarrow>
   i < length cs \<and> SHA (cs ! i) = sha \<and> (\<forall>j. i < j \<and> j < length cs \<longrightarrow> SHA (cs ! j) \<noteq> sha)"
  using find_head_fold [of "length cs" cs sha]
  by (auto simp: find_head_def split: option.splits)

lemma find_head_last: "SHA c = sha \<Longrightarrow> find_head (cs @ [c]) sha = Some (length cs)"
  by (simp add: find_head_def)

lemma loadRawCommits_world:
  "loadRawCommits ghc w = (r, w') \<Longrightarrow>
   \<exists>qs. w' = w\<lparr>commits_responses := qs\<rparr>"
  by (auto simp: loadRawCommits_def split: prod.splits)

lemma loadPushedAt_world:
  "loadPushedAt ghc w cs = (r, cs', w') \<Longrightarrow> \<exists>qs. w' = w\<lparr>history_responses := qs\<rparr>"
  by (auto simp: loadPushedAt_def split: prod.splits option.splits if_splits)

lemma loadRawCommits_slept:
  "loadRawCommits ghc (w\<lparr>slept := s\<rparr>) =
     (fst (loadRawCommits ghc w), (snd (loadRawCommits ghc w))\<lparr>slept := s\<rparr>)"
  by (simp add: loadRawCommits_def split: prod.splits)

lemma loadPushedAt_slept:
  "loadPushedAt ghc (w\<lparr>slept := s\<rparr>) cs =
     (fst (loadPushedAt ghc w cs), fst (snd (loadPushedAt ghc w cs)),
      (snd (snd (loadPushedAt ghc w cs)))\<lparr>slept := s\<rparr>)"
  by (simp add: loadPushedAt_def split: prod.splits option.splits)

lemma loadCommits_attempt_slept:
  "loadCommits_attempt ghc (w\<lparr>slept := s\<rparr>) =
     (fst (loadCommits_attempt ghc w), (snd (loadCommits_attempt ghc w))\<lparr>slept := s\<rparr>)"
proof -
  obtain r w1 where raw: "loadRawCommits ghc w = (r, w1)" by force
  then have raw': "loadRawCommits ghc (w\<lparr>slept := s\<rparr>) = (r, w1\<lparr>slept := s\<rparr>)"
    by (simp add: loadRawCommits_slept)
  show ?thesis
  proof (cases r)
    case (Inl e)
    then show ?thesis by (simp add: loadCommits_attempt_def raw raw')
  next
    case (Inr rawCommits)
    let ?cs = "map ToCommit rawCommits"
    show ?thesis
    proof (cases "find_head ?cs (HeadRefOID (pr ghc))")
      case None
      with Inr show ?thesis by (simp add: loadCommits_attempt_def raw raw')
    next
      case (Some head)
      show ?thesis
      proof (cases "IsCrossRepository (pr ghc) \<and> PushedAt (?cs ! head) = None")
        case False
        with Inr Some show ?thesis by (auto simp: loadCommits_attempt_def raw raw')
      next
        case True
        obtain e cs w2 where lp: "loadPushedAt ghc w1 ?cs = (e, cs, w2)"
          by (metis prod_cases3)
        then have lp': "loadPushedAt ghc (w1\<lparr>slept := s\<rparr>) ?cs = (e, cs, w2\<lparr>slept := s\<rparr>)"
          by (simp add: loadPushedAt_slept)
        from Inr Some True show ?thesis
          by (cases e) (simp_all add: loadCommits_attempt_def raw raw' lp lp')
      qed
    qed
  qed
qed

lemma loadCommits_attempt_keeps_slept:
  "slept (snd (loadCommits_attempt ghc w)) = slept w"
proof -
  have "(snd (loadCommits_attempt ghc w))\<lparr>slept := slept w\<rparr> = snd (loadCommits_attempt ghc w)"
    using loadCommits_attempt_slept [where ghc = ghc and w = w and s = "slept w"]
    by simp (metis snd_conv)
  then show ?thesis
    by (metis world.select_convs(5) world.surjective world.update_convs(5))
qed


lemma loadCommits_loop_Failed:
  "loadCommits_attempt ghc w = (Failed e, w') \<Longrightarrow> loadCommits_loop ghc w a = (Inl e, w')"
  by (subst loadCommits_loop.simps) simp

lemma loadCommits_loop_Loaded:
  "loadCommits_attempt ghc w = (Loaded cs, w') \<Longrightarrow> loadCommits_loop ghc w a = (Inr cs, w')"
  by (subst loadCommits_loop.simps) simp

lemma loadCommits_loop_Missing_last:
  "loadCommits_attempt ghc w = (Missing, w') \<Longrightarrow> commitLoadMaxAttempts \<le> a + 1 \<Longrightarrow>
   loadCommits_loop ghc w a = (Inl PushedDateMissing, w')"
  by (subst loadCommits_loop.simps) simp

lemma loadCommits_loop_Missing_retry:
  "loadCommits_attempt ghc w = (Missing, w') \<Longrightarrow> a + 1 < commitLoadMaxAttempts \<Longrightarrow>
   loadCommits_loop ghc w a =
     loadCommits_loop ghc (Sleep (2 ^ a * commitLoadBaseDelay) w') (a + 1)"
  by (subst loadCommits_loop.simps) simp

lemma attempt_with_slept:
  "loadCommits_attempt ghc w = (r, w') \<Longrightarrow>
   loadCommits_attempt ghc (w\<lparr>slept := s\<rparr>) = (r, w'\<lparr>slept := s\<rparr>)"
  by (simp add: loadCommits_attempt_slept)

lemma loadCommits_loop_missing_run:
  "missing_run ghc n w = Some w' \<Longrightarrow> a + n < commitLoadMaxAttempts \<Longrightarrow>
   loadCommits_loop ghc (w\<lparr>slept := s\<rparr>) a =
     loadCommits_loop ghc (w'\<lparr>slept := s @ backoff a n\<rparr>) (a + n)"
proof (induct n arbitrary: a w s)
  case 0
  then show ?case by simp
next
  case (Suc n)
  from Suc.prems(1) obtain w1 where
    att: "loadCommits_attempt ghc w = (Missing, w1)" and run: "missing_run ghc n w1 = Some w'"
    by (auto split: prod.splits attempt_result.splits)
  from Suc.prems(2) have a: "a + 1 < commitLoadMaxAttempts" "Suc a + n < commitLoadMaxAttempts"
    by simp_all
  have "loadCommits_loop ghc (w\<lparr>slept := s\<rparr>) a =
        loadCommits_loop ghc (Sleep (2 ^ a * commitLoadBaseDelay) (w1\<lparr>slept := s\<rparr>)) (a + 1)"
    by (rule loadCommits_loop_Missing_retry [OF attempt_with_slept [OF att] a(1)])
  also have "Sleep (2 ^ a * commitLoadBaseDelay) (w1\<lparr>slept := s\<rparr>) =
        w1\<lparr>slept := s @ [2 ^ a * commitLoadBaseDelay]\<rparr>"
    by (simp add: Sleep_def)
  also have "loadCommits_loop ghc (w1\<lparr>slept := s @ [2 ^ a * commitLoadBaseDelay]\<rparr>) (a + 1) =
        loadCommits_loop ghc
          (w'\<lparr>slept := (s @ [2 ^ a * commitLoadBaseDelay]) @ backoff (Suc a) n\<rparr>) (Suc a + n)"
    using Suc.hyps [OF run a(2), of "s @ [2 ^ a * commitLoadBaseDelay]"] by simp
  finally show ?case by simp
qed

lemma missing_run_slept: "missing_run ghc n w = Some w' \<Longrightarrow> slept w' = slept w"
proof (induct n arbitrary: w)
  case 0
  then show ?case by simp
next
  case (Suc n)
  from Suc.prems obtain w1 where
    att: "loadCommits_attempt ghc w = (Missing, w1)" and run: "missing_run ghc n w1 = Some w'"
    by (auto split: prod.splits attempt_result.splits)
  from loadCommits_attempt_keeps_slept [of ghc w] att have "slept w1 = slept w" by simp
  with Suc.hyps [OF run] show ?case by simp
qed

lemma loadCommits_after_missing_run:
  assumes "missing_run ghc n w = Some w'" "n < commitLoadMaxAttempts"
  shows "loadCommits ghc w =
     loadCommits_loop ghc
       (w'\<lparr>slept := slept w @ backoff 0 n\<rparr>) n"
  using loadCommits_loop_missing_run [OF assms(1), of 0 "slept w"] assms(2)
  by (simp add: loadCommits_def)


lemma backoff_take: "n \<le> 4 \<Longrightarrow> backoff 0 n = take n [1000, 2000, 4000, 8000]"
proof -
  assume "n \<le> 4"
  then consider "n = 0" | "n = 1" | "n = 2" | "n = 3" | "n = 4" by linarith
  then show ?thesis
  proof cases
    case 1
    then show ?thesis by simp
  next
    case 2
    then show ?thesis by (simp add: commitLoadBaseDelay_def)
  next
    case 3
    have "backoff 0 (Suc (Suc 0)) = [1000, 2000]" by (simp add: commitLoadBaseDelay_def)
    with 3 show ?thesis by (simp add: numeral_2_eq_2)
  next
    case 4
    have "backoff 0 (Suc (Suc (Suc 0))) = [1000, 2000, 4000]"
      by (simp add: commitLoadBaseDelay_def)
    with 4 show ?thesis by (simp add: numeral_3_eq_3)
  next
    case 5
    have four: "(4::nat) = Suc (Suc (Suc (Suc 0)))" by simp
    have "backoff 0 (Suc (Suc (Suc (Suc 0)))) = take 4 [1000, 2000, 4000, 8000]"
      by (simp add: commitLoadBaseDelay_def)
    then show ?thesis unfolding 5 by (subst four) assumption
  qed
qed

lemmas attempt_defs = loadCommits_attempt_def loadRawCommits_def UpdateCursor_def
  find_head_def ToCommit_def v4GitActor_GetV3Login_def upt_rec

lemma attempt_unset:
  "loadCommits_attempt (pull False ''h'') (quiet\<lparr>commits_responses := unset_head # qs\<rparr>) =
     (Missing, quiet\<lparr>commits_responses := qs\<rparr>)"
  by (simp add: ex_defs unset_head_def attempt_defs)

lemma attempt_set:
  "loadCommits_attempt (pull False ''h'') (quiet\<lparr>commits_responses := set_head # qs\<rparr>) =
     (Loaded (map ToCommit [raw_commit ''p'' [] None, raw_commit ''h'' [''p''] (Some 42)]),
      quiet\<lparr>commits_responses := qs\<rparr>)"
  by (simp add: ex_defs set_head_def attempt_defs)

lemma attempt_Missing_iff:
  "loadCommits_attempt ghc w = (Missing, w') \<longleftrightarrow>
   (\<exists>raw w1 i cs.
      loadRawCommits ghc w = (Inr raw, w1) \<and>
      find_head (map ToCommit raw) (HeadRefOID (pr ghc)) = Some i \<and>
      (if IsCrossRepository (pr ghc) \<and> PushedAt (map ToCommit raw ! i) = None
       then loadPushedAt ghc w1 (map ToCommit raw) = (None, cs, w')
       else cs = map ToCommit raw \<and> w' = w1) \<and>
      PushedAt (cs ! i) = None)"
proof -
  obtain r w1 where raw: "loadRawCommits ghc w = (r, w1)" by force
  show ?thesis
  proof (cases r)
    case (Inl e)
    then show ?thesis by (simp add: loadCommits_attempt_def raw)
  next
    case (Inr rawCommits)
    let ?cs = "map ToCommit rawCommits"
    show ?thesis
    proof (cases "find_head ?cs (HeadRefOID (pr ghc))")
      case None
      with Inr show ?thesis by (simp add: loadCommits_attempt_def raw)
    next
      case (Some head)
      show ?thesis
      proof (cases "IsCrossRepository (pr ghc) \<and> PushedAt (?cs ! head) = None")
        case False
        with Inr Some show ?thesis by (auto simp: loadCommits_attempt_def raw)
      next
        case True
        obtain e cs w2 where lp: "loadPushedAt ghc w1 ?cs = (e, cs, w2)"
          by (metis prod_cases3)
        from Inr Some True show ?thesis
          by (cases e) (auto simp: loadCommits_attempt_def raw lp)
      qed
    qed
  qed
qed

lemma fold_go_append:
  "fold (\<lambda>f fs. go_append fs (to_File f)) xs s =
     (if xs = [] then s else Some ((case s of None \<Rightarrow> [] | Some ys \<Rightarrow> ys) @ map to_File xs))"
  by (induct xs arbitrary: s) (auto simp: go_append_def)

lemma ListFiles_loop_error:
  "ListFiles_loop rs page acc = (Inl e, rs') \<Longrightarrow> e = FailedToListFiles \<or> e = NoResponse"
  by (induct rs page acc rule: ListFiles_loop.induct) (auto split: option.splits if_splits)

lemma loadRawCommits_loop_error:
  "loadRawCommits_loop qs cur acc = (Inl e, qs') \<Longrightarrow> e = FailedToLoadCommits \<or> e = NoResponse"
  by (induct qs cur acc rule: loadRawCommits_loop.induct) (auto split: option.splits if_splits)

lemma loadPushedAt_loop_error:
  "loadPushedAt_loop qs cur m cs = (Some e, m', cs', qs') \<Longrightarrow>
   e = FailedToLoadPushedDates \<or> e = NoResponse"
  by (induct qs cur m cs rule: loadPushedAt_loop.induct) (auto split: option.splits if_splits)

lemma loadPushedAt_error:
  "loadPushedAt ghc w cs = (Some e, cs', w') \<Longrightarrow>
   e = FailedToLoadPushedDates \<or> e = NoResponse \<or> (\<exists>n > 0. e = CommitsNotFound n)"
  by (auto simp: loadPushedAt_def split: prod.splits option.splits if_splits
        dest: loadPushedAt_loop_error)

lemma loadCommits_attempt_error:
  assumes "loadCommits_attempt ghc w = (Failed e, w')"
  shows "e \<noteq> TooManyCommits \<and> e \<noteq> PushedDateMissing"
proof -
  obtain r w1 where raw: "loadRawCommits ghc w = (r, w1)" by force
  show ?thesis
  proof (cases r)
    case (Inl e')
    with assms raw have "e' = e" by (simp add: loadCommits_attempt_def)
    with Inl raw show ?thesis
      by (auto simp: loadRawCommits_def split: prod.splits dest: loadRawCommits_loop_error)
  next
    case (Inr rawCommits)
    let ?cs = "map ToCommit rawCommits"
    show ?thesis
    proof (cases "find_head ?cs (HeadRefOID (pr ghc))")
      case None
      with Inr assms raw show ?thesis by (simp add: loadCommits_attempt_def)
    next
      case (Some head)
      show ?thesis
      proof (cases "IsCrossRepository (pr ghc) \<and> PushedAt (?cs ! head) = None")
        case False
        with Inr Some assms raw show ?thesis
          by (auto simp: loadCommits_attempt_def split: if_splits)
      next
        case True
        obtain e' cs w2 where lp: "loadPushedAt ghc w1 ?cs = (e', cs, w2)"
          by (metis prod_cases3)
        from Inr Some True assms raw lp have "e' = Some e"
          by (cases e') (auto simp: loadCommits_attempt_def split: if_splits)
        with lp show ?thesis by (auto dest: loadPushedAt_error)
      qed
    qed
  qed
qed

lemma loadCommits_loop_error:
  "loadCommits_loop ghc w a = (Inl e, w') \<Longrightarrow> e \<noteq> TooManyCommits"
proof (induct ghc w a rule: loadCommits_loop.induct)
  case (1 ghc w attempts)
  obtain r w1 where att: "loadCommits_attempt ghc w = (r, w1)" by force
  show ?case
  proof (cases r)
    case (Failed e')
    with att "1.prems" loadCommits_loop_Failed [of ghc w e' w1 attempts]
      loadCommits_attempt_error [of ghc w e' w1]
    show ?thesis by simp
  next
    case (Loaded cs)
    with att "1.prems" loadCommits_loop_Loaded [of ghc w cs w1 attempts] show ?thesis by simp
  next
    case Missing
    show ?thesis
    proof (cases "commitLoadMaxAttempts \<le> attempts + 1")
      case True
      with Missing att "1.prems" loadCommits_loop_Missing_last [of ghc w w1 attempts]
      show ?thesis by simp
    next
      case False
      then have lt: "attempts + 1 < commitLoadMaxAttempts" by simp
      have step: "loadCommits_loop ghc w attempts =
          loadCommits_loop ghc (Sleep (2 ^ attempts * commitLoadBaseDelay) w1) (attempts + 1)"
        by (rule loadCommits_loop_Missing_retry [OF att [unfolded Missing] lt])
      have "loadCommits_loop ghc (Sleep (2 ^ (attempts + 1 - 1) * commitLoadBaseDelay) w1)
          (attempts + 1) = (Inl e, w')"
        using "1.prems" step by simp
      from "1.hyps" [OF att [symmetric] Missing False this] show ?thesis .
    qed
  qed
qed


lemma ChangedFiles_listed:
  assumes "files ghc = None" "ListFiles_loop (ListFiles_responses w) 0 [] = (Inr allFiles, rs)"
  shows "ChangedFiles ghc w =
     (if MaxPullRequestFiles \<le> length allFiles then Inl TooManyFiles
      else Inr (if allFiles = [] then None else Some (map to_File allFiles)),
      ghc\<lparr>files := if allFiles = [] then None else Some (map to_File allFiles)\<rparr>,
      w\<lparr>ListFiles_responses := rs\<rparr>)"
  using assms by (simp add: ChangedFiles_def fold_go_append go_len_def)

lemma ChangedFiles_list_error:
  assumes "files ghc = None" "ListFiles_loop (ListFiles_responses w) 0 [] = (Inl e, rs)"
  shows "ChangedFiles ghc w = (Inl e, ghc, w\<lparr>ListFiles_responses := rs\<rparr>)"
  using assms by (simp add: ChangedFiles_def)

lemma ChangedFiles_cached:
  assumes "files ghc = Some fs"
  shows "ChangedFiles ghc w =
     (if MaxPullRequestFiles \<le> length fs then Inl TooManyFiles else Inr (Some fs), ghc, w)"
  using assms by (simp add: ChangedFiles_def go_len_def)

lemma loadCommits_long_history:
  "loadCommits (pull False ''h'') (quiet\<lparr>commits_responses := [long_history n]\<rparr>) =
     (Inr (map ToCommit (replicate n (raw_commit ''p'' [] None) @ [raw_commit ''h'' [''p''] (Some 42)])),
      quiet)"
proof -
  let ?raw = "replicate n (raw_commit ''p'' [] None)"
  let ?h = "raw_commit ''h'' [''p''] (Some 42)"
  have raw: "loadRawCommits (pull False ''h'') (quiet\<lparr>commits_responses := [long_history n]\<rparr>) =
      (Inr (?raw @ [?h]), quiet)"
    by (simp add: loadRawCommits_def long_history_def last_page_def UpdateCursor_def quiet_def)
  have fh: "find_head (map ToCommit (?raw @ [?h])) (HeadRefOID (pr (pull False ''h''))) = Some n"
    using find_head_last [of "ToCommit ?h" "''h''" "map ToCommit ?raw"]
    by (simp add: ToCommit_def raw_commit_def pull_def)
  have "loadCommits_attempt (pull False ''h'') (quiet\<lparr>commits_responses := [long_history n]\<rparr>) =
      (Loaded (map ToCommit (?raw @ [?h])), quiet)"
    unfolding loadCommits_attempt_def raw
    by (simp only: fh prod.case sum.case option.case)
       (simp add: pull_def nth_append ToCommit_def raw_commit_def)
  then show ?thesis
    by (simp only: loadCommits_def loadCommits_loop_Loaded)
qed

lemma attempt_long_history:
  "loadCommits_attempt (pull False ''h'') (quiet\<lparr>commits_responses := long_history n # qs\<rparr>) =
     (Loaded (map ToCommit (replicate n (raw_commit ''p'' [] None) @ [raw_commit ''h'' [''p''] (Some 42)])),
      quiet\<lparr>commits_responses := qs\<rparr>)"
proof -
  let ?raw = "replicate n (raw_commit ''p'' [] None)"
  let ?h = "raw_commit ''h'' [''p''] (Some 42)"
  have raw: "loadRawCommits (pull False ''h'') (quiet\<lparr>commits_responses := long_history n # qs\<rparr>) =
      (Inr (?raw @ [?h]), quiet\<lparr>commits_responses := qs\<rparr>)"
    by (simp add: loadRawCommits_def long_history_def last_page_def UpdateCursor_def quiet_def)
  have fh: "find_head (map ToCommit (?raw @ [?h])) (HeadRefOID (pr (pull False ''h''))) = Some n"
    using find_head_last [of "ToCommit ?h" "''h''" "map ToCommit ?raw"]
    by (simp add: ToCommit_def raw_commit_def pull_def)
  show ?thesis
    unfolding loadCommits_attempt_def raw
    by (simp only: fh prod.case sum.case option.case)
       (simp add: pull_def nth_append ToCommit_def raw_commit_def)
qed

subsection \<open>History pages\<close>

lemma match_node_found:
  "map_of m (hn_OID n) = Some i \<Longrightarrow>
   match_node n (m, cs) = (AList.delete (hn_OID n) m, cs[i := (cs ! i)\<lparr>PushedAt := hn_PushedDate n\<rparr>])"
  by (simp add: match_node_def)

lemma match_node_absent:
  "map_of m (hn_OID n) = None \<Longrightarrow> match_node n (m, cs) = (m, cs)"
  by (simp add: match_node_def)

lemma keys_delete: "fst ` set (AList.delete k m) = fst ` set m - {k}"
  by (auto simp: AList.delete_eq)

lemma match_node_keys:
  "fst ` set (fst (match_node n (m, cs))) = fst ` set m - {hn_OID n}"
proof (cases "map_of m (hn_OID n)")
  case None
  then have "hn_OID n \<notin> fst ` set m" by (simp add: map_of_eq_None_iff)
  with None show ?thesis by (simp add: match_node_absent)
next
  case (Some i)
  then show ?thesis by (simp add: match_node_found keys_delete)
qed

lemma fold_match_node_keys:
  "fst ` set (fst (fold match_node ns (m, cs))) = fst ` set m - hn_OID ` set ns"
proof (induct ns arbitrary: m cs)
  case Nil
  then show ?case by simp
next
  case (Cons n ns)
  obtain m1 cs1 where s: "match_node n (m, cs) = (m1, cs1)" by force
  from match_node_keys [of n m cs] s have "fst ` set m1 = fst ` set m - {hn_OID n}" by simp
  with Cons [of m1 cs1] s show ?case by auto
qed

lemma match_node_ok: "index_ok m cs \<Longrightarrow> index_ok (fst (match_node n (m, cs))) (snd (match_node n (m, cs)))"
  by (cases "map_of m (hn_OID n)")
     (simp_all add: match_node_found match_node_absent index_ok_delete index_ok_set_PushedAt)

lemma fold_match_node_ok:
  "index_ok m cs \<Longrightarrow>
   index_ok (fst (fold match_node ns (m, cs))) (snd (fold match_node ns (m, cs)))"
proof (induct ns arbitrary: m cs)
  case Nil
  then show ?case by simp
next
  case (Cons n ns)
  obtain m1 cs1 where s: "match_node n (m, cs) = (m1, cs1)" by force
  with match_node_ok [OF Cons.prems, of n] have "index_ok m1 cs1" by simp
  from Cons.hyps [OF this] s show ?case by simp
qed

lemma fold_match_node_frame:
  "i \<notin> snd ` set m \<Longrightarrow> snd (fold match_node ns (m, cs)) ! i = cs ! i"
proof (induct ns arbitrary: m cs)
  case Nil
  then show ?case by simp
next
  case (Cons n ns)
  show ?case
  proof (cases "map_of m (hn_OID n)")
    case None
    with Cons show ?thesis by (simp add: match_node_absent)
  next
    case (Some j)
    then have "j \<in> snd ` set m" by (metis map_of_SomeD snd_conv image_eqI)
    with Cons.prems have ne: "i \<noteq> j" by auto
    have "i \<notin> snd ` set (AList.delete (hn_OID n) m)"
      using Cons.prems by (auto simp: AList.delete_eq)
    from Cons.hyps [OF this] ne Some show ?thesis
      by (simp add: match_node_found)
  qed
qed

lemma fold_match_node_length:
  "length (snd (fold match_node ns (m, cs))) = length cs"
proof (induct ns arbitrary: m cs)
  case Nil
  then show ?case by simp
next
  case (Cons n ns)
  then show ?case
    by (cases "map_of m (hn_OID n)") (simp_all add: match_node_found match_node_absent)
qed

lemma fold_match_node_matched:
  assumes "index_ok m cs" "map_of m k = Some i" "find (\<lambda>n. hn_OID n = k) ns = Some n"
  shows "snd (fold match_node ns (m, cs)) ! i = (cs ! i)\<lparr>PushedAt := hn_PushedDate n\<rparr>"
  using assms
proof (induct ns arbitrary: m cs)
  case Nil
  then show ?case by simp
next
  case (Cons a ns)
  have i: "i < length cs" "SHA (cs ! i) = k"
    using index_ok_lookup [OF Cons.prems(1,2)] by simp_all
  show ?case
  proof (cases "hn_OID a = k")
    case True
    with Cons.prems(3) have [simp]: "a = n" by simp
    from True Cons.prems(2) have found: "map_of m (hn_OID n) = Some i" by simp
    have "i \<notin> snd ` set (AList.delete (hn_OID n) m)"
      by (rule index_ok_value_unique [OF Cons.prems(1) found])
    from fold_match_node_frame [OF this] i(1) show ?thesis
      by (simp add: match_node_found [OF found])
  next
    case False
    with Cons.prems(3) have f: "find (\<lambda>n. hn_OID n = k) ns = Some n" by simp
    obtain m1 cs1 where s: "match_node a (m, cs) = (m1, cs1)" by force
    from match_node_ok [OF Cons.prems(1), of a] s have ok1: "index_ok m1 cs1" by simp
    have look1: "map_of m1 k = Some i" and same: "cs1 ! i = cs ! i"
    proof -
      show "map_of m1 k = Some i"
        using s False Cons.prems(2)
        by (cases "map_of m (hn_OID a)")
           (auto simp: match_node_found match_node_absent AList.delete_conv')
      show "cs1 ! i = cs ! i"
      proof (cases "map_of m (hn_OID a)")
        case None
        with s show ?thesis by (simp add: match_node_absent)
      next
        case (Some j)
        from index_ok_lookup [OF Cons.prems(1) Some] i(2) False have "j \<noteq> i" by auto
        with s Some show ?thesis by (auto simp: match_node_found)
      qed
    qed
    from Cons.hyps [OF ok1 look1 f] s same show ?thesis by simp
  qed
qed

lemma fold_match_node_unmatched:
  assumes "index_ok m cs" "\<forall>k\<in>hn_OID ` set ns. map_of m k \<noteq> Some i"
  shows "snd (fold match_node ns (m, cs)) ! i = cs ! i"
  using assms
proof (induct ns arbitrary: m cs)
  case Nil
  then show ?case by simp
next
  case (Cons a ns)
  obtain m1 cs1 where s: "match_node a (m, cs) = (m1, cs1)" by force
  from match_node_ok [OF Cons.prems(1), of a] s have ok1: "index_ok m1 cs1" by simp
  have sub: "map_of m1 k = Some j \<Longrightarrow> map_of m k = Some j" for k j
    using s by (cases "map_of m (hn_OID a)")
      (auto simp: match_node_found match_node_absent AList.delete_conv' split: if_splits)
  have same: "cs1 ! i = cs ! i"
  proof (cases "map_of m (hn_OID a)")
    case None
    with s show ?thesis by (simp add: match_node_absent)
  next
    case (Some j)
    with Cons.prems(2) have "j \<noteq> i" by auto
    with s Some show ?thesis by (auto simp: match_node_found)
  qed
  have "\<forall>k\<in>hn_OID ` set ns. map_of m1 k \<noteq> Some i"
    using Cons.prems(2) sub by auto
  from Cons.hyps [OF ok1 this] s same show ?case by simp
qed


lemma loadPushedAt_loop_empty: "loadPushedAt_loop qs cur [] cs = (None, [], cs, qs)"
  by (cases qs) simp_all

lemma loadPushedAt_loop_last_match:
  assumes "m \<noteq> []" "q cur = Some d" "fst ` set m \<subseteq> hn_OID ` set (Nodes d)"
  shows "loadPushedAt_loop (q # qs) cur m cs =
           (None, [], snd (fold match_node (Nodes d) (m, cs)), qs)"
proof -
  have "fst ` set (fst (fold match_node (Nodes d) (m, cs))) = {}"
    using assms(3) by (auto simp: fold_match_node_keys)
  then have e: "fst (fold match_node (Nodes d) (m, cs)) = []" by simp
  from assms(1,2) show ?thesis
    by (simp add: e loadPushedAt_loop_empty)
qed

lemma loadPushedAt_loop_next:
  assumes "m \<noteq> []" "q cur = Some d" "fst (UpdateCursor (PageInfo d) cur)"
  shows "loadPushedAt_loop (q # qs) cur m cs =
           loadPushedAt_loop qs (snd (UpdateCursor (PageInfo d) cur))
             (fst (fold match_node (Nodes d) (m, cs))) (snd (fold match_node (Nodes d) (m, cs)))"
  using assms by simp

lemma loadPushedAt_loop_unmatched:
  assumes "s \<in> fst ` set m"
    and "\<forall>q\<in>set qs. \<forall>cur d. q cur = Some d \<longrightarrow> s \<notin> hn_OID ` set (Nodes d)"
  shows "fst (loadPushedAt_loop qs cur m cs) = Some FailedToLoadPushedDates \<or>
         fst (loadPushedAt_loop qs cur m cs) = Some NoResponse \<or>
         fst (loadPushedAt_loop qs cur m cs) = None \<and>
           s \<in> fst ` set (fst (snd (loadPushedAt_loop qs cur m cs)))"
  using assms
proof (induct qs arbitrary: cur m cs)
  case Nil
  then show ?case by auto
next
  case (Cons q qs)
  from Cons.prems(1) have ne: "length m > 0" by auto
  show ?case
  proof (cases "q cur")
    case None
    with ne show ?thesis by simp
  next
    case (Some d)
    with Cons.prems(2) have "s \<notin> hn_OID ` set (Nodes d)" by auto
    with Cons.prems(1) have keep: "s \<in> fst ` set (fst (fold match_node (Nodes d) (m, cs)))"
      by (simp add: fold_match_node_keys)
    show ?thesis
    proof (cases "fst (UpdateCursor (PageInfo d) cur)")
      case True
      from Cons.prems(2) have "\<forall>q\<in>set qs. \<forall>cur d. q cur = Some d \<longrightarrow> s \<notin> hn_OID ` set (Nodes d)"
        by simp
      from Cons.hyps [OF keep this] ne Some True show ?thesis by simp
    next
      case False
      with ne Some keep show ?thesis by simp
    qed
  qed
qed

lemma loadPushedAt_loop_exhausted:
  assumes "s \<in> fst ` set m"
    and "\<forall>q\<in>set qs. \<forall>cur d. q cur = Some d \<longrightarrow> s \<notin> hn_OID ` set (Nodes d)"
    and "qs \<noteq> []" "\<forall>q\<in>set qs. \<forall>cur. q cur \<noteq> None"
    and "\<forall>cur d. last qs cur = Some d \<longrightarrow> \<not> fst (UpdateCursor (PageInfo d) cur)"
  shows "fst (loadPushedAt_loop qs cur m cs) = None"
  using assms
proof (induct qs arbitrary: cur m cs)
  case Nil
  then show ?case by simp
next
  case (Cons q qs)
  from Cons.prems(1) have ne: "length m > 0" by auto
  from Cons.prems(4) have "q cur \<noteq> None" by simp
  then obtain d where d: "q cur = Some d" by (cases "q cur") simp_all
  with Cons.prems(2) have "s \<notin> hn_OID ` set (Nodes d)" by auto
  with Cons.prems(1) have keep: "s \<in> fst ` set (fst (fold match_node (Nodes d) (m, cs)))"
    by (simp add: fold_match_node_keys)
  show ?case
  proof (cases "fst (UpdateCursor (PageInfo d) cur)")
    case False
    with ne d show ?thesis by simp
  next
    case True
    with Cons.prems(5) d have "qs \<noteq> []" by auto
    with Cons.prems have
      "\<forall>q\<in>set qs. \<forall>cur d. q cur = Some d \<longrightarrow> s \<notin> hn_OID ` set (Nodes d)"
      "\<forall>q\<in>set qs. \<forall>cur. q cur \<noteq> None"
      "\<forall>cur d. last qs cur = Some d \<longrightarrow> \<not> fst (UpdateCursor (PageInfo d) cur)"
      by simp_all
    from Cons.hyps [OF keep this(1) \<open>qs \<noteq> []\<close> this(2,3)] ne d True show ?thesis by simp
  qed
qed

lemma loadPushedAt_result:
  "loadPushedAt ghc w cs =
     (case fst (loadPushedAt_loop (history_responses w) None (index_commits cs) cs) of
        Some e \<Rightarrow> Some e
      | None \<Rightarrow>
          if length (fst (snd (loadPushedAt_loop (history_responses w) None (index_commits cs) cs))) > 0
          then Some (CommitsNotFound
                 (length (fst (snd (loadPushedAt_loop (history_responses w) None (index_commits cs) cs)))))
          else None,
      fst (snd (snd (loadPushedAt_loop (history_responses w) None (index_commits cs) cs))),
      w\<lparr>history_responses :=
           snd (snd (snd (loadPushedAt_loop (history_responses w) None (index_commits cs) cs)))\<rparr>)"
  by (simp add: loadPushedAt_def split: prod.splits option.splits)

lemma loadCommits_loop_backfill_error:
  assumes "loadRawCommits ghc w0 = (Inr raw, w)"
    and "find_head (map ToCommit raw) (HeadRefOID (pr ghc)) = Some i"
    and "IsCrossRepository (pr ghc)" "PushedAt (map ToCommit raw ! i) = None"
    and "loadPushedAt ghc w (map ToCommit raw) = (Some e, cs', w')"
  shows "loadCommits_loop ghc w0 a = (Inl e, w')"
    and "slept w' = slept w0" and "commits_responses w' = commits_responses w"
proof -
  have "loadCommits_attempt ghc w0 = (Failed e, w')"
    using assms by (simp add: loadCommits_attempt_def)
  then show "loadCommits_loop ghc w0 a = (Inl e, w')" by (rule loadCommits_loop_Failed)
  from loadRawCommits_world [OF assms(1)] obtain qs where w: "w = w0\<lparr>commits_responses := qs\<rparr>" ..
  from loadPushedAt_world [OF assms(5)] obtain hs where w': "w' = w\<lparr>history_responses := hs\<rparr>" ..
  from w w' show "slept w' = slept w0" "commits_responses w' = commits_responses w" by simp_all
qed

lemmas history_defs = dated_parent_def undated_def node_h_def node_p_def history_h_def
  history_p_def history_end_def some_history_def

lemmas backfill_eval = loadPushedAt_def index_commits_def match_node_def UpdateCursor_def
  ToCommit_def v4GitActor_GetV3Login_def raw_commit_def last_page_def more_page_def quiet_def
  AList.delete_eq upt_rec

subsection \<open>Joint pagination\<close>

lemma connection_page_Nodes:
  "Nodes (connection_page items (cursor_after p)) = take 100 (drop p items)"
  by (simp add: connection_page_def cursor_after_def cursor_at_def Let_def)

lemma connection_page_UpdateCursor:
  assumes "p \<le> length items"
  shows "UpdateCursor (PageInfo (connection_page items (cursor_after p))) (cursor_after p) =
           (p + 100 < length items, cursor_after (min (p + 100) (length items)))"
proof -
  have start: "(case cursor_after p of None \<Rightarrow> 0 | Some s \<Rightarrow> length s) = p"
    by (simp add: cursor_after_def cursor_at_def)
  let ?nodes = "take 100 (drop p items)"
  have len: "length ?nodes = min 100 (length items - p)" by simp
  have pi: "PageInfo (connection_page items (cursor_after p)) =
      \<lparr>EndCursor = (if ?nodes = [] then None else Some (cursor_at (p + length ?nodes))),
       HasNextPage = (p + length ?nodes < length items)\<rparr>"
    unfolding connection_page_def Let_def start by simp
  consider (more) "p + 100 < length items" | (final) "p < length items" "length items \<le> p + 100"
    | (past) "p = length items"
    using assms by linarith
  then show ?thesis
  proof cases
    case more
    then have l: "length ?nodes = 100" by simp
    then have "length ?nodes \<noteq> 0" by linarith
    then have "?nodes \<noteq> []" by (simp only: length_0_conv not_False_eq_True)
    moreover from l have "p + length ?nodes = p + 100" by linarith
    ultimately have "?nodes \<noteq> []" "p + length ?nodes = p + 100" .
    with more show ?thesis
      unfolding pi UpdateCursor_def by (simp add: cursor_after_def min_def)
  next
    case final
    then have l: "length ?nodes = length items - p" by simp
    with final have "length ?nodes \<noteq> 0" by linarith
    then have "?nodes \<noteq> []" by (simp only: length_0_conv not_False_eq_True)
    moreover from l final have "p + length ?nodes = length items" by linarith
    ultimately have "?nodes \<noteq> []" "p + length ?nodes = length items" .
    moreover from final have "items \<noteq> []" by (cases items) simp_all
    ultimately show ?thesis using final
      unfolding pi UpdateCursor_def by (simp add: cursor_after_def min_def)
  next
    case past
    then have "?nodes = []" by simp
    with past show ?thesis
      unfolding pi UpdateCursor_def by (simp add: cursor_after_def)
  qed
qed

lemma take_next_page: "take p xs @ take 100 (drop p xs) = take (min (p + 100) (length xs)) xs"
proof -
  have "take p xs @ take 100 (drop p xs) = take (p + 100) xs"
    by (simp add: take_add)
  then show ?thesis by (simp add: min_def)
qed

lemma ceil100_step:
  assumes "100 < n"
  shows "ceil100 (n - 100) = ceil100 n - 1" and "2 \<le> ceil100 n"
proof -
  define k where "k = n - 100"
  with assms have n: "n = k + 100" and k: "0 < k" by simp_all
  have "(k + 99 + 100) div 100 = (k + 99) div 100 + 1"
    by (rule div_add_self2) simp
  then have "(k + 100 + 99) div 100 = Suc ((k + 99) div 100)"
    by (simp add: add.commute add.left_commute)
  moreover have "1 \<le> (k + 99) div 100" using k by (simp add: Suc_le_eq div_greater_zero_iff)
  ultimately show "ceil100 (n - 100) = ceil100 n - 1" and "2 \<le> ceil100 n"
    unfolding ceil100_def n by simp_all
qed

lemma ceil100_small: "n \<le> 100 \<Longrightarrow> ceil100 n \<le> 1"
proof -
  assume "n \<le> 100"
  then have "n + 99 < 2 * 100" by simp
  then have "(n + 99) div 100 < 2" by (simp only: less_mult_imp_div_less)
  then show ?thesis by (simp add: ceil100_def)
qed


lemma ceil100_next:
  assumes "p \<le> n"
  shows "ceil100 (n - min (p + 100) n) = ceil100 (n - p) - 1"
proof (cases "100 < n - p")
  case True
  then have "n - min (p + 100) n = n - p - 100" by (simp add: min_def)
  with ceil100_step(1) [OF True] show ?thesis by simp
next
  case False
  with assms have "n - min (p + 100) n = 0" by (simp add: min_def) linarith
  moreover from False have "ceil100 (n - p) \<le> 1" by (intro ceil100_small) simp
  ultimately show ?thesis by (simp add: ceil100_def)
qed

lemma loadPagedData_loop_step:
  assumes "p \<le> length cs" "q \<le> length rs"
  shows "loadPagedData_loop lower (platform_paged cs rs # qs) (cursor_after p) (cursor_after q)
           (map ToComment (take p cs)) (map (ToReview lower) (take q rs)) =
         (if p + 100 < length cs \<or> q + 100 < length rs
          then loadPagedData_loop lower qs
                 (cursor_after (min (p + 100) (length cs))) (cursor_after (min (q + 100) (length rs)))
                 (map ToComment (take (min (p + 100) (length cs)) cs))
                 (map (ToReview lower) (take (min (q + 100) (length rs)) rs))
          else (Inr (map ToComment cs, map (ToReview lower) rs), qs))"
proof -
  have c: "map ToComment (take p cs) @ map ToComment (take 100 (drop p cs)) =
      map ToComment (take (min (p + 100) (length cs)) cs)"
    by (simp only: map_append [symmetric] take_next_page)
  have r: "map (ToReview lower) (take q rs) @ map (ToReview lower) (take 100 (drop q rs)) =
      map (ToReview lower) (take (min (q + 100) (length rs)) rs)"
    by (simp only: map_append [symmetric] take_next_page)
  have fin: "\<not> p + 100 < length cs \<Longrightarrow> take (min (p + 100) (length cs)) cs = cs"
    "\<not> q + 100 < length rs \<Longrightarrow> take (min (q + 100) (length rs)) rs = rs"
    by (simp_all add: min_def)
  show ?thesis
    using fin
    by (simp add: platform_paged_def connection_page_Nodes
          connection_page_UpdateCursor [OF assms(1)] connection_page_UpdateCursor [OF assms(2)]
          c r Let_def)
qed

lemma loadPagedData_loop_platform:
  assumes "p \<le> length cs" "q \<le> length rs"
    and "k = max 1 (max (ceil100 (length cs - p)) (ceil100 (length rs - q)))"
  shows "loadPagedData_loop lower (replicate k (platform_paged cs rs) @ rest)
           (cursor_after p) (cursor_after q)
           (map ToComment (take p cs)) (map (ToReview lower) (take q rs)) =
         (Inr (map ToComment cs, map (ToReview lower) rs), rest)"
  using assms
proof (induct k arbitrary: p q)
  case 0
  then show ?case by simp
next
  case (Suc k)
  let ?p = "min (p + 100) (length cs)" and ?q = "min (q + 100) (length rs)"
  have unfold: "replicate (Suc k) (platform_paged cs rs) @ rest =
      platform_paged cs rs # (replicate k (platform_paged cs rs) @ rest)" by simp
  note step = loadPagedData_loop_step [OF Suc.prems(1,2),
      where qs = "replicate k (platform_paged cs rs) @ rest" and lower = lower]
  show ?case
  proof (cases "p + 100 < length cs \<or> q + 100 < length rs")
    case False
    then have "length cs - p \<le> 100" "length rs - q \<le> 100" by linarith+
    then have "ceil100 (length cs - p) \<le> 1" "ceil100 (length rs - q) \<le> 1"
      by (simp_all only: ceil100_small)
    with Suc.prems(3) have "k = 0" by simp
    with False step show ?thesis by (simp only: unfold) simp
  next
    case True
    have le: "?p \<le> length cs" "?q \<le> length rs" by simp_all
    have a: "ceil100 (length cs - ?p) = ceil100 (length cs - p) - 1"
      and b: "ceil100 (length rs - ?q) = ceil100 (length rs - q) - 1"
      by (rule ceil100_next [OF Suc.prems(1)], rule ceil100_next [OF Suc.prems(2)])
    from True have "100 < length cs - p \<or> 100 < length rs - q" by linarith
    then have big: "2 \<le> ceil100 (length cs - p) \<or> 2 \<le> ceil100 (length rs - q)"
      using ceil100_step(2) [of "length cs - p"] ceil100_step(2) [of "length rs - q"] by blast
    define x where "x = ceil100 (length cs - p)"
    define y where "y = ceil100 (length rs - q)"
    from Suc.prems(3) have "Suc k = max 1 (max x y)" by (simp only: x_def y_def)
    moreover from big have "2 \<le> x \<or> 2 \<le> y" by (simp only: x_def y_def)
    ultimately have "k = max 1 (max (x - 1) (y - 1))" by (auto simp: max_def split: if_splits)
    then have k: "k = max 1 (max (ceil100 (length cs - ?p)) (ceil100 (length rs - ?q)))"
      by (simp only: a b x_def y_def)
    from Suc.hyps [OF le k] True step show ?thesis by (simp only: unfold) simp
  qed
qed

lemma ListFiles_one_page:
  "ListFiles_loop (one_page_of_files n # rs) 0 [] = (Inr (replicate n a_file), rs)"
  by (simp add: one_page_of_files_def)

section \<open>Claims\<close>

text \<open>
  C8. Actor normalization: an actor of type Bot gets its login with the suffix [bot];
  an actor of any other type gets its login unchanged; a commit author or committer
  with no account gets the empty string; one with an account gets the normalization of
  that account.
\<close>

theorem actor_normalization:
  "(Type a = ''Bot'' \<longrightarrow> v4Actor_GetV3Login a = Login a @ ''[bot]'') \<and>
   (Type a \<noteq> ''Bot'' \<longrightarrow> v4Actor_GetV3Login a = Login a) \<and>
   (User ga = None \<longrightarrow> v4GitActor_GetV3Login ga = '''') \<and>
   (\<forall>u. User ga = Some u \<longrightarrow> v4GitActor_GetV3Login ga = v4Actor_GetV3Login u)"
  by (simp add: v4Actor_GetV3Login_def v4GitActor_GetV3Login_def)

theorem actor_normalization_witness:
  "v4Actor_GetV3Login \<lparr>Type = ''Bot'', Login = ''deploy-bot''\<rparr> = ''deploy-bot[bot]'' \<and>
   v4Actor_GetV3Login \<lparr>Type = ''User'', Login = ''alice''\<rparr> = ''alice'' \<and>
   v4GitActor_GetV3Login \<lparr>User = None\<rparr> = '''' \<and>
   v4GitActor_GetV3Login \<lparr>User = Some \<lparr>Type = ''Bot'', Login = ''deploy-bot''\<rparr>\<rparr> = ''deploy-bot[bot]''"
  using actor_normalization [of "\<lparr>Type = ''Bot'', Login = ''deploy-bot''\<rparr>" "\<lparr>User = None\<rparr>"]
    actor_normalization [of "\<lparr>Type = ''User'', Login = ''alice''\<rparr>"
      "\<lparr>User = Some \<lparr>Type = ''Bot'', Login = ''deploy-bot''\<rparr>\<rparr>"]
  by simp

text \<open>
  C10. backfillPushedAt returns for every commit list and every head SHA, and its loop
  runs at most once per distinct SHA of the list: each pass removes the SHA it started
  from before it moves to the first parent. The model is a total function, defined by
  well-founded recursion on the size of the map.
\<close>

theorem backfillPushedAt_terminates:
  "\<exists>res n. backfill_loop (index_commits cs) cs headSHA 0 = (res, n) \<and>
     backfillPushedAt cs headSHA = res \<and> backfill_iterations cs headSHA = n \<and>
     n \<le> card (SHA ` set cs) \<and> n \<le> length cs"
proof -
  have "snd (backfill_loop (index_commits cs) cs headSHA 0) \<le> card (SHA ` set cs)"
    using backfill_loop_iterations [of "index_commits cs" cs headSHA 0]
    by (simp add: length_index_commits)
  moreover have "card (SHA ` set cs) \<le> length cs"
    by (metis card_image_le card_length le_trans List.finite_set)
  ultimately show ?thesis
    by (cases "backfill_loop (index_commits cs) cs headSHA 0")
       (simp add: backfillPushedAt_def backfill_iterations_def)
qed

theorem backfillPushedAt_terminates_witness:
  "backfill_iterations (map ToCommit cycle) ''a'' = 2 \<and>
   backfill_iterations (map ToCommit cycle) ''a'' \<le> length (map ToCommit cycle)"
proof -
  have "backfill_iterations (map ToCommit cycle) ''a'' = 2" by code_simp
  moreover from backfillPushedAt_terminates [of "map ToCommit cycle" "''a''"]
  have "backfill_iterations (map ToCommit cycle) ''a'' \<le> length (map ToCommit cycle)"
    by blast
  ultimately show ?thesis by blast
qed

text \<open>
  C7. Parent-chain inference. If the head SHA is absent from the index, nothing changes.
  Otherwise let it be found at position h, and let h # hs follow first parents through
  the index without repeating a commit. Then the head keeps its pushed date; every
  commit on the path whose pushed date was unset gets the one its child has afterwards,
  and one whose pushed date was set keeps it; where the path ends (no parent, or a first
  parent that is absent from the index or already visited) no commit off the path is
  touched; so if only the head had a pushed date, the whole path carries it afterwards.
  Nothing but pushed dates ever changes. Commits runs the pass on whatever loadCommits
  returned below the ceiling, for a fork or not, and caches its result.
\<close>

theorem parent_chain_inference:
  "(map_of (index_commits cs) headSHA = None \<longrightarrow> backfillPushedAt cs headSHA = cs) \<and>
   (map_of (index_commits cs) headSHA = Some h \<and> distinct (h # hs) \<and>
    first_parent_path (index_commits cs) cs (h # hs) \<longrightarrow>
      PushedAt (backfillPushedAt cs headSHA ! h) = PushedAt (cs ! h) \<and>
      inherits (backfillPushedAt cs headSHA) cs (h # hs) \<and>
      (path_ends (index_commits cs) cs (h # hs) \<longrightarrow>
         (\<forall>i. i \<notin> set (h # hs) \<longrightarrow> backfillPushedAt cs headSHA ! i = cs ! i)) \<and>
      (\<forall>t. PushedAt (cs ! h) = Some t \<and> (\<forall>a\<in>set hs. PushedAt (cs ! a) = None) \<longrightarrow>
         (\<forall>a\<in>set (h # hs). PushedAt (backfillPushedAt cs headSHA ! a) = Some t))) \<and>
   map (\<lambda>c. c\<lparr>PushedAt := None\<rparr>) (backfillPushedAt cs headSHA) =
     map (\<lambda>c. c\<lparr>PushedAt := None\<rparr>) cs \<and>
   (\<forall>ghc w w'. commits ghc = None \<and> loadCommits ghc w = (Inr cs, w') \<and>
      length cs < MaxPullRequestCommits \<and> HeadRefOID (pr ghc) = headSHA \<longrightarrow>
      Commits ghc w =
        (Inr (Some (backfillPushedAt cs headSHA)),
         ghc\<lparr>commits := Some (backfillPushedAt cs headSHA)\<rparr>, w'))"
proof (intro conjI impI allI)
  assume "map_of (index_commits cs) headSHA = None"
  then show "backfillPushedAt cs headSHA = cs"
    by (simp add: backfillPushedAt_def backfill_loop_absent)
next
  show "map (\<lambda>c. c\<lparr>PushedAt := None\<rparr>) (backfillPushedAt cs headSHA) =
           map (\<lambda>c. c\<lparr>PushedAt := None\<rparr>) cs"
    unfolding backfillPushedAt_def by (rule backfill_loop_only_PushedAt)
next
  fix ghc w w'
  assume "commits ghc = None \<and> loadCommits ghc w = (Inr cs, w') \<and>
      length cs < MaxPullRequestCommits \<and> HeadRefOID (pr ghc) = headSHA"
  then show "Commits ghc w =
        (Inr (Some (backfillPushedAt cs headSHA)),
         ghc\<lparr>commits := Some (backfillPushedAt cs headSHA)\<rparr>, w')"
    using Commits_runs_backfill [of ghc w cs w'] by auto
next
  assume a: "map_of (index_commits cs) headSHA = Some h \<and> distinct (h # hs) \<and>
    first_parent_path (index_commits cs) cs (h # hs)"
  then have a1: "map_of (index_commits cs) headSHA = Some h" and a2: "distinct (h # hs)"
    and a3: "first_parent_path (index_commits cs) cs (h # hs)" by blast+
  note c = backfillPushedAt_chain [OF a1 a2 a3]
  show "PushedAt (backfillPushedAt cs headSHA ! h) = PushedAt (cs ! h)" by (rule c(1))
  show "inherits (backfillPushedAt cs headSHA) cs (h # hs)" by (rule c(2))
  {
    fix i
    assume "path_ends (index_commits cs) cs (h # hs)" "i \<notin> set (h # hs)"
    then show "backfillPushedAt cs headSHA ! i = cs ! i" by (rule c(3))
  }
  {
    fix t
    assume "PushedAt (cs ! h) = Some t \<and> (\<forall>a\<in>set hs. PushedAt (cs ! a) = None)"
    then show "\<forall>a\<in>set (h # hs). PushedAt (backfillPushedAt cs headSHA ! a) = Some t"
      using inherits_all_set [OF c(2), of t] c(1) by auto
  }
qed

theorem parent_chain_inference_witness:
  "map_of (index_commits (map ToCommit chain4)) ''h'' = Some 3 \<and>
   distinct [3, 2, 1, 0 :: nat] \<and>
   first_parent_path (index_commits (map ToCommit chain4)) (map ToCommit chain4) [3, 2, 1, 0] \<and>
   PushedAt (backfillPushedAt (map ToCommit chain4) ''h'' ! 3) = Some 42 \<and>
   PushedAt (backfillPushedAt (map ToCommit chain4) ''h'' ! 2) = Some 42 \<and>
   PushedAt (backfillPushedAt (map ToCommit chain4) ''h'' ! 1) = Some 42 \<and>
   PushedAt (backfillPushedAt (map ToCommit chain4) ''h'' ! 0) = Some 42 \<and>
   map_of (index_commits (map ToCommit chain4)) ''gone'' = None \<and>
   backfillPushedAt (map ToCommit chain4) ''gone'' = map ToCommit chain4 \<and>
   Commits (pull False ''h'') (quiet\<lparr>commits_responses := [chain4_page]\<rparr>) =
     (Inr (Some (backfillPushedAt (map ToCommit chain4) ''h'')),
      (pull False ''h'')\<lparr>commits := Some (backfillPushedAt (map ToCommit chain4) ''h'')\<rparr>, quiet)"
proof -
  let ?cs = "map ToCommit chain4"
  let ?w = "quiet\<lparr>commits_responses := [chain4_page]\<rparr>"
  have h1: "map_of (index_commits ?cs) ''h'' = Some 3" by code_simp
  have h2: "distinct [3, 2, 1, 0 :: nat]" by simp
  have h3: "first_parent_path (index_commits ?cs) ?cs [3, 2, 1, 0]" by code_simp
  have h4: "map_of (index_commits ?cs) ''gone'' = None" by code_simp
  have unset: "PushedAt (?cs ! 3) = Some 42 \<and> (\<forall>a\<in>set [2, 1, 0]. PushedAt (?cs ! a) = None)"
    by (simp add: ex_defs ToCommit_def)
  have load: "loadCommits (pull False ''h'') ?w = (Inr ?cs, quiet)"
    by (simp add: ex_defs chain4_page_def loadCommits_def loadCommits_loop.simps
          loadCommits_attempt_def loadRawCommits_def UpdateCursor_def find_head_def ToCommit_def
          upt_rec)
  have ctx: "commits (pull False ''h'') = None \<and> length ?cs < MaxPullRequestCommits \<and>
      HeadRefOID (pr (pull False ''h'')) = ''h''"
    by (simp add: ex_defs MaxPullRequestCommits_def)
  note t = parent_chain_inference [of ?cs "''h''" 3 "[2, 1, 0]"]
  note u = parent_chain_inference [of ?cs "''gone''" 3 "[2, 1, 0]"]
  from t h1 h2 h3 unset
  have "\<forall>a\<in>set [3, 2, 1, 0]. PushedAt (backfillPushedAt ?cs ''h'' ! a) = Some 42"
    by blast
  moreover from t load ctx have "Commits (pull False ''h'') ?w =
     (Inr (Some (backfillPushedAt ?cs ''h'')),
      (pull False ''h'')\<lparr>commits := Some (backfillPushedAt ?cs ''h'')\<rparr>, quiet)"
    by blast
  moreover from u h4 have "backfillPushedAt ?cs ''gone'' = ?cs" by blast
  ultimately show ?thesis using h1 h2 h3 h4 by simp
qed

text \<open>
  C2. The retry schedule of loadCommits. If the first four passes and then a fifth each
  find the head's pushed date missing, loadCommits and Commits fail with
  PushedDateMissing after that fifth pass, having slept 1000, 2000, 4000 and 8000
  milliseconds. If passes 1 to k - 1 find it missing and pass k, for k from 1 to 5,
  loads the commits, loadCommits returns them after pass k, having slept the first k - 1
  of those delays and no more; Commits then returns the backfilled list and caches it
  when the list has fewer than 250 commits, and fails with TooManyCommits, caching
  nothing, when it has 250 or more. The delays fall between the passes: after n passes
  that found the pushed date missing, for n up to 4, pass n + 1 starts on the platform
  as pass n left it, with exactly the first n delays slept. A pass finds the pushed date
  missing exactly when the fetch succeeds, the head is in the fetched list and, after
  the backfill of a fork, its pushed date is unset (attempt_Missing_iff).
\<close>

theorem retry_schedule:
  "(\<forall>w4 w5. missing_run ghc 4 w = Some w4 \<and> loadCommits_attempt ghc w4 = (Missing, w5) \<longrightarrow>
      loadCommits ghc w =
        (Inl PushedDateMissing, w5\<lparr>slept := slept w @ [1000, 2000, 4000, 8000]\<rparr>) \<and>
      (commits ghc = None \<longrightarrow>
         Commits ghc w =
           (Inl PushedDateMissing, ghc, w5\<lparr>slept := slept w @ [1000, 2000, 4000, 8000]\<rparr>))) \<and>
   (\<forall>k cs w' w''. 1 \<le> k \<and> k \<le> 5 \<and> missing_run ghc (k - 1) w = Some w' \<and>
        loadCommits_attempt ghc w' = (Loaded cs, w'') \<longrightarrow>
      loadCommits ghc w =
        (Inr cs, w''\<lparr>slept := slept w @ take (k - 1) [1000, 2000, 4000, 8000]\<rparr>) \<and>
      (commits ghc = None \<longrightarrow>
         Commits ghc w =
           (if 250 \<le> length cs
            then (Inl TooManyCommits, ghc,
                  w''\<lparr>slept := slept w @ take (k - 1) [1000, 2000, 4000, 8000]\<rparr>)
            else (Inr (Some (backfillPushedAt cs (HeadRefOID (pr ghc)))),
                  ghc\<lparr>commits := Some (backfillPushedAt cs (HeadRefOID (pr ghc)))\<rparr>,
                  w''\<lparr>slept := slept w @ take (k - 1) [1000, 2000, 4000, 8000]\<rparr>)))) \<and>
   (\<forall>n v. n \<le> 4 \<and> missing_run ghc n w = Some v \<longrightarrow>
      loadCommits ghc w =
        loadCommits_loop ghc (v\<lparr>slept := slept w @ take n [1000, 2000, 4000, 8000]\<rparr>) n)"
proof (intro conjI allI impI)
  fix w4 w5
  assume a: "missing_run ghc 4 w = Some w4 \<and> loadCommits_attempt ghc w4 = (Missing, w5)"
  then have run: "missing_run ghc 4 w = Some w4"
    and att: "loadCommits_attempt ghc w4 = (Missing, w5)" by simp_all
  have four: "(4::nat) < commitLoadMaxAttempts" "commitLoadMaxAttempts \<le> 4 + 1"
    by (simp_all add: commitLoadMaxAttempts_def)
  have "loadCommits ghc w = loadCommits_loop ghc (w4\<lparr>slept := slept w @ backoff 0 4\<rparr>) 4"
    by (rule loadCommits_after_missing_run [OF run four(1)])
  also have "\<dots> = (Inl PushedDateMissing, w5\<lparr>slept := slept w @ backoff 0 4\<rparr>)"
    by (rule loadCommits_loop_Missing_last [OF attempt_with_slept [OF att] four(2)])
  finally show l: "loadCommits ghc w =
        (Inl PushedDateMissing, w5\<lparr>slept := slept w @ [1000, 2000, 4000, 8000]\<rparr>)"
    by (simp add: backoff_take)
  assume "commits ghc = None"
  with l show "Commits ghc w =
           (Inl PushedDateMissing, ghc, w5\<lparr>slept := slept w @ [1000, 2000, 4000, 8000]\<rparr>)"
    by (simp add: Commits_def)
next
  fix k cs w' w''
  assume a: "1 \<le> k \<and> k \<le> 5 \<and> missing_run ghc (k - 1) w = Some w' \<and>
        loadCommits_attempt ghc w' = (Loaded cs, w'')"
  then have k: "k - 1 < commitLoadMaxAttempts" "k - 1 \<le> 4"
    and run: "missing_run ghc (k - 1) w = Some w'"
    and att: "loadCommits_attempt ghc w' = (Loaded cs, w'')"
    by (auto simp: commitLoadMaxAttempts_def)
  have "loadCommits ghc w = loadCommits_loop ghc (w'\<lparr>slept := slept w @ backoff 0 (k - 1)\<rparr>) (k - 1)"
    by (rule loadCommits_after_missing_run [OF run k(1)])
  also have "\<dots> = (Inr cs, w''\<lparr>slept := slept w @ backoff 0 (k - 1)\<rparr>)"
    by (rule loadCommits_loop_Loaded [OF attempt_with_slept [OF att]])
  finally show l: "loadCommits ghc w =
        (Inr cs, w''\<lparr>slept := slept w @ take (k - 1) [1000, 2000, 4000, 8000]\<rparr>)"
    by (simp only: backoff_take [OF k(2)])
  assume "commits ghc = None"
  with l show "Commits ghc w =
           (if 250 \<le> length cs
            then (Inl TooManyCommits, ghc,
                  w''\<lparr>slept := slept w @ take (k - 1) [1000, 2000, 4000, 8000]\<rparr>)
            else (Inr (Some (backfillPushedAt cs (HeadRefOID (pr ghc)))),
                  ghc\<lparr>commits := Some (backfillPushedAt cs (HeadRefOID (pr ghc)))\<rparr>,
                  w''\<lparr>slept := slept w @ take (k - 1) [1000, 2000, 4000, 8000]\<rparr>))"
    by (simp add: Commits_def MaxPullRequestCommits_def)
next
  fix n v
  assume a: "n \<le> 4 \<and> missing_run ghc n w = Some v"
  then have n: "n < commitLoadMaxAttempts" "n \<le> 4" and run: "missing_run ghc n w = Some v"
    by (auto simp: commitLoadMaxAttempts_def)
  have "loadCommits ghc w = loadCommits_loop ghc (v\<lparr>slept := slept w @ backoff 0 n\<rparr>) n"
    by (rule loadCommits_after_missing_run [OF run n(1)])
  then show "loadCommits ghc w =
        loadCommits_loop ghc (v\<lparr>slept := slept w @ take n [1000, 2000, 4000, 8000]\<rparr>) n"
    by (simp only: backoff_take [OF n(2)])
qed

theorem retry_schedule_witness:
  "Commits (pull False ''h'')
     (quiet\<lparr>commits_responses := [unset_head, unset_head, unset_head, unset_head, unset_head, set_head]\<rparr>) =
     (Inl PushedDateMissing, pull False ''h'',
      quiet\<lparr>commits_responses := [set_head], slept := [1000, 2000, 4000, 8000]\<rparr>) \<and>
   loadCommits (pull False ''h'')
     (quiet\<lparr>commits_responses := [unset_head, unset_head, unset_head, set_head, unset_head]\<rparr>) =
     (Inr (map ToCommit [raw_commit ''p'' [] None, raw_commit ''h'' [''p''] (Some 42)]),
      quiet\<lparr>commits_responses := [unset_head], slept := [1000, 2000, 4000]\<rparr>) \<and>
   Commits (pull False ''h'')
     (quiet\<lparr>commits_responses := [unset_head, unset_head, unset_head, set_head, unset_head]\<rparr>) =
     (Inr (Some (map ToCommit [raw_commit ''p'' [] (Some 42), raw_commit ''h'' [''p''] (Some 42)])),
      (pull False ''h'')\<lparr>commits :=
         Some (map ToCommit [raw_commit ''p'' [] (Some 42), raw_commit ''h'' [''p''] (Some 42)])\<rparr>,
      quiet\<lparr>commits_responses := [unset_head], slept := [1000, 2000, 4000]\<rparr>) \<and>
   loadCommits (pull False ''h'')
     (quiet\<lparr>commits_responses := [unset_head, unset_head, set_head]\<rparr>) =
     loadCommits_loop (pull False ''h'')
       (quiet\<lparr>commits_responses := [set_head], slept := [1000, 2000]\<rparr>) 2"
proof -
  let ?g = "pull False ''h''"
  let ?w = "quiet\<lparr>commits_responses := [unset_head, unset_head, unset_head, unset_head, unset_head, set_head]\<rparr>"
  let ?v = "quiet\<lparr>commits_responses := [unset_head, unset_head, unset_head, set_head, unset_head]\<rparr>"
  let ?u = "quiet\<lparr>commits_responses := [unset_head, unset_head, set_head]\<rparr>"
  let ?cs = "map ToCommit [raw_commit ''p'' [] None, raw_commit ''h'' [''p''] (Some 42)]"
  have four: "(4::nat) = Suc (Suc (Suc (Suc 0)))" and three: "(4 - 1 :: nat) = Suc (Suc (Suc 0))"
    and two: "(2::nat) = Suc (Suc 0)"
    by simp_all
  have r1: "missing_run ?g 4 ?w = Some (quiet\<lparr>commits_responses := [unset_head, set_head]\<rparr>)"
    by (subst four) (simp add: attempt_unset)
  have a1: "loadCommits_attempt ?g (quiet\<lparr>commits_responses := [unset_head, set_head]\<rparr>) =
      (Missing, quiet\<lparr>commits_responses := [set_head]\<rparr>)"
    by (rule attempt_unset)
  have r2: "missing_run ?g (4 - 1) ?v = Some (quiet\<lparr>commits_responses := [set_head, unset_head]\<rparr>)"
    by (subst three) (simp add: attempt_unset)
  have a2: "loadCommits_attempt ?g (quiet\<lparr>commits_responses := [set_head, unset_head]\<rparr>) =
      (Loaded ?cs, quiet\<lparr>commits_responses := [unset_head]\<rparr>)"
    by (rule attempt_set)
  have r3: "missing_run ?g 2 ?u = Some (quiet\<lparr>commits_responses := [set_head]\<rparr>)"
    by (subst two) (simp add: attempt_unset)
  have c: "commits ?g = None" "slept ?w = []" "slept ?v = []" "slept ?u = []"
    by (simp_all add: ex_defs)
  have small: "\<not> 250 \<le> length ?cs" by simp
  have bf: "backfillPushedAt ?cs (HeadRefOID (pr ?g)) =
      map ToCommit [raw_commit ''p'' [] (Some 42), raw_commit ''h'' [''p''] (Some 42)]"
    by code_simp
  note fail = retry_schedule [where ghc = ?g and w = ?w, THEN conjunct1,
      THEN spec [where x = "quiet\<lparr>commits_responses := [unset_head, set_head]\<rparr>"],
      THEN spec [where x = "quiet\<lparr>commits_responses := [set_head]\<rparr>"], THEN mp,
      OF conjI [OF r1 a1], THEN conjunct2, THEN mp, OF c(1)]
  note succeed = retry_schedule [where ghc = ?g and w = ?v, THEN conjunct2, THEN conjunct1,
      THEN spec [where x = 4], THEN spec [where x = ?cs],
      THEN spec [where x = "quiet\<lparr>commits_responses := [set_head, unset_head]\<rparr>"],
      THEN spec [where x = "quiet\<lparr>commits_responses := [unset_head]\<rparr>"], THEN mp]
  note between = retry_schedule [where ghc = ?g and w = ?u, THEN conjunct2, THEN conjunct2,
      THEN spec [where x = 2],
      THEN spec [where x = "quiet\<lparr>commits_responses := [set_head]\<rparr>"], THEN mp]
  have h: "1 \<le> (4::nat) \<and> (4::nat) \<le> 5 \<and>
      missing_run ?g (4 - 1) ?v = Some (quiet\<lparr>commits_responses := [set_head, unset_head]\<rparr>) \<and>
      loadCommits_attempt ?g (quiet\<lparr>commits_responses := [set_head, unset_head]\<rparr>) =
        (Loaded ?cs, quiet\<lparr>commits_responses := [unset_head]\<rparr>)"
    using r2 a2 by simp
  have f: "Commits ?g ?w =
     (Inl PushedDateMissing, ?g,
      quiet\<lparr>commits_responses := [set_head], slept := [1000, 2000, 4000, 8000]\<rparr>)"
    using fail by (simp add: c)
  have l: "loadCommits ?g ?v =
     (Inr ?cs, quiet\<lparr>commits_responses := [unset_head], slept := [1000, 2000, 4000]\<rparr>)"
    using succeed [OF h, THEN conjunct1] by (simp add: c)
  have s: "Commits ?g ?v =
     (Inr (Some (map ToCommit [raw_commit ''p'' [] (Some 42), raw_commit ''h'' [''p''] (Some 42)])),
      ?g\<lparr>commits :=
         Some (map ToCommit [raw_commit ''p'' [] (Some 42), raw_commit ''h'' [''p''] (Some 42)])\<rparr>,
      quiet\<lparr>commits_responses := [unset_head], slept := [1000, 2000, 4000]\<rparr>)"
    using succeed [OF h, THEN conjunct2, THEN mp, OF c(1)]
    by (simp only: small if_False bf) (simp add: c)
  have "(2::nat) \<le> 4 \<and> missing_run ?g 2 ?u = Some (quiet\<lparr>commits_responses := [set_head]\<rparr>)"
    using r3 by simp
  then have b: "loadCommits ?g ?u =
     loadCommits_loop ?g (quiet\<lparr>commits_responses := [set_head], slept := [1000, 2000]\<rparr>) 2"
    using between by (simp add: c)
  show ?thesis by (intro conjI) (rule f l s b)+
qed

text \<open>
  C2, as stated, fails where it says that Commits succeeds. With the pushed date unset
  on the first pass and set on the second, and 250 commits fetched, loadCommits returns
  the list after two passes and one delay of 1000 milliseconds, and Commits fails with
  TooManyCommits.
\<close>

theorem set_on_second_pass_too_many_commits:
  "missing_run (pull False ''h'') 1 (quiet\<lparr>commits_responses := [unset_head, long_history 249]\<rparr>) =
     Some (quiet\<lparr>commits_responses := [long_history 249]\<rparr>) \<and>
   loadCommits_attempt (pull False ''h'') (quiet\<lparr>commits_responses := [long_history 249]\<rparr>) =
     (Loaded (map ToCommit
        (replicate 249 (raw_commit ''p'' [] None) @ [raw_commit ''h'' [''p''] (Some 42)])), quiet) \<and>
   loadCommits (pull False ''h'') (quiet\<lparr>commits_responses := [unset_head, long_history 249]\<rparr>) =
     (Inr (map ToCommit
        (replicate 249 (raw_commit ''p'' [] None) @ [raw_commit ''h'' [''p''] (Some 42)])),
      quiet\<lparr>slept := [1000]\<rparr>) \<and>
   Commits (pull False ''h'') (quiet\<lparr>commits_responses := [unset_head, long_history 249]\<rparr>) =
     (Inl TooManyCommits, pull False ''h'', quiet\<lparr>slept := [1000]\<rparr>)"
proof -
  let ?g = "pull False ''h''"
  let ?w = "quiet\<lparr>commits_responses := [unset_head, long_history 249]\<rparr>"
  let ?v = "quiet\<lparr>commits_responses := [long_history 249]\<rparr>"
  let ?cs = "map ToCommit
        (replicate 249 (raw_commit ''p'' [] None) @ [raw_commit ''h'' [''p''] (Some 42)])"
  have r: "missing_run ?g 1 ?w = Some ?v"
    by (simp add: attempt_unset)
  have q: "quiet\<lparr>commits_responses := []\<rparr> = quiet" by (simp add: quiet_def)
  have a: "loadCommits_attempt ?g ?v = (Loaded ?cs, quiet)"
    using attempt_long_history [of 249 "[]"] by (simp only: q)
  have one: "(1::nat) < commitLoadMaxAttempts" by (simp add: commitLoadMaxAttempts_def)
  have "loadCommits ?g ?w = loadCommits_loop ?g (?v\<lparr>slept := slept ?w @ backoff 0 1\<rparr>) 1"
    by (rule loadCommits_after_missing_run [OF r one])
  also have "\<dots> = (Inr ?cs, quiet\<lparr>slept := slept ?w @ backoff 0 1\<rparr>)"
    by (rule loadCommits_loop_Loaded [OF attempt_with_slept [OF a]])
  also have "slept ?w @ backoff 0 1 = [1000]"
    by (simp add: quiet_def commitLoadBaseDelay_def)
  finally have l: "loadCommits ?g ?w = (Inr ?cs, quiet\<lparr>slept := [1000]\<rparr>)" .
  have c: "commits ?g = None" by (simp add: pull_def)
  have n: "length ?cs \<ge> MaxPullRequestCommits" by (simp add: MaxPullRequestCommits_def)
  have t: "Commits ?g ?w = (Inl TooManyCommits, ?g, quiet\<lparr>slept := [1000]\<rparr>)"
    unfolding Commits_def l using c n by simp
  show ?thesis by (intro conjI) (rule r a l t)+
qed

text \<open>
  C6. If the fetched commit list holds no commit with the head SHA, the pass fails with
  HeadCommitMissing at once, whatever the number of earlier passes: the loop, loadCommits
  and Commits return that error with the platform as the fetch left it, so no further
  fetch, no sleep and no history query has happened, and nothing is cached.
\<close>

theorem head_missing_is_final:
  assumes "loadRawCommits ghc w = (Inr raw, w1)"
    and "\<forall>c\<in>set raw. OID c \<noteq> HeadRefOID (pr ghc)"
  shows "loadCommits_loop ghc w attempts = (Inl HeadCommitMissing, w1) \<and>
         loadCommits ghc w = (Inl HeadCommitMissing, w1) \<and>
         slept w1 = slept w \<and>
         history_responses w1 = history_responses w \<and>
         (commits ghc = None \<longrightarrow> Commits ghc w = (Inl HeadCommitMissing, ghc, w1))"
proof -
  have "HeadRefOID (pr ghc) \<notin> SHA ` set (map ToCommit raw)"
    using assms(2) by (auto simp: ToCommit_def)
  then have "find_head (map ToCommit raw) (HeadRefOID (pr ghc)) = None"
    by (simp add: find_head_None)
  with assms(1) have att: "loadCommits_attempt ghc w = (Failed HeadCommitMissing, w1)"
    by (simp add: loadCommits_attempt_def)
  have loop: "loadCommits_loop ghc w a = (Inl HeadCommitMissing, w1)" for a
    by (rule loadCommits_loop_Failed [OF att])
  from loadRawCommits_world [OF assms(1)] obtain qs where "w1 = w\<lparr>commits_responses := qs\<rparr>" ..
  then have same: "slept w1 = slept w" "history_responses w1 = history_responses w" by simp_all
  from loop same show ?thesis by (simp add: loadCommits_def Commits_def)
qed

theorem head_missing_is_final_witness:
  "loadRawCommits (pull True ''h'')
     (quiet\<lparr>commits_responses := [headless, set_head], history_responses := [some_history]\<rparr>) =
     (Inr [raw_commit ''p'' [] None, raw_commit ''q'' [''p''] None],
      quiet\<lparr>commits_responses := [set_head], history_responses := [some_history]\<rparr>) \<and>
   Commits (pull True ''h'')
     (quiet\<lparr>commits_responses := [headless, set_head], history_responses := [some_history]\<rparr>) =
     (Inl HeadCommitMissing, pull True ''h'',
      quiet\<lparr>commits_responses := [set_head], history_responses := [some_history]\<rparr>) \<and>
   slept (quiet\<lparr>commits_responses := [set_head], history_responses := [some_history]\<rparr>) = []"
proof -
  let ?g = "pull True ''h''"
  let ?w = "quiet\<lparr>commits_responses := [headless, set_head], history_responses := [some_history]\<rparr>"
  let ?w1 = "quiet\<lparr>commits_responses := [set_head], history_responses := [some_history]\<rparr>"
  let ?raw = "[raw_commit ''p'' [] None, raw_commit ''q'' [''p''] None]"
  have h1: "loadRawCommits ?g ?w = (Inr ?raw, ?w1)"
    by (simp add: ex_defs headless_def loadRawCommits_def UpdateCursor_def)
  have h2: "\<forall>c\<in>set ?raw. OID c \<noteq> HeadRefOID (pr ?g)"
    by (simp add: ex_defs)
  have c: "commits ?g = None" by (simp add: ex_defs)
  from head_missing_is_final [OF h1 h2, of 0] c h1 show ?thesis
    by (simp add: quiet_def)
qed


text \<open>
  C3. The size ceilings. Once the file list is fetched (or cached), ChangedFiles fails
  with TooManyFiles exactly when it has 300 or more entries, and returns the mapped
  list otherwise; a failed listing gives the listing's error, never TooManyFiles. Once
  loadCommits has returned a list, Commits fails with TooManyCommits exactly when it has
  250 or more entries, and returns the backfilled list otherwise; a failure of
  loadCommits is never TooManyCommits, and a cached list is returned as it is.
\<close>

theorem size_ceilings:
  "(\<forall>allFiles rs. files ghc = None \<and>
      ListFiles_loop (ListFiles_responses w) 0 [] = (Inr allFiles, rs) \<longrightarrow>
      fst (ChangedFiles ghc w) =
        (if 300 \<le> length allFiles then Inl TooManyFiles
         else Inr (if allFiles = [] then None else Some (map to_File allFiles)))) \<and>
   (\<forall>e rs. files ghc = None \<and> ListFiles_loop (ListFiles_responses w) 0 [] = (Inl e, rs) \<longrightarrow>
      fst (ChangedFiles ghc w) = Inl e \<and> e \<noteq> TooManyFiles) \<and>
   (\<forall>fs. files ghc = Some fs \<longrightarrow>
      fst (ChangedFiles ghc w) = (if 300 \<le> length fs then Inl TooManyFiles else Inr (Some fs))) \<and>
   (\<forall>cs w'. commits ghc = None \<and> loadCommits ghc w = (Inr cs, w') \<longrightarrow>
      fst (Commits ghc w) =
        (if 250 \<le> length cs then Inl TooManyCommits
         else Inr (Some (backfillPushedAt cs (HeadRefOID (pr ghc)))))) \<and>
   (\<forall>e w'. commits ghc = None \<and> loadCommits ghc w = (Inl e, w') \<longrightarrow>
      fst (Commits ghc w) = Inl e \<and> e \<noteq> TooManyCommits) \<and>
   (\<forall>cs. commits ghc = Some cs \<longrightarrow> fst (Commits ghc w) = Inr (Some cs))"
proof (intro conjI allI impI)
  fix allFiles rs
  assume "files ghc = None \<and> ListFiles_loop (ListFiles_responses w) 0 [] = (Inr allFiles, rs)"
  then show "fst (ChangedFiles ghc w) =
        (if 300 \<le> length allFiles then Inl TooManyFiles
         else Inr (if allFiles = [] then None else Some (map to_File allFiles)))"
    by (simp add: ChangedFiles_listed MaxPullRequestFiles_def)
next
  fix e rs
  assume a: "files ghc = None \<and> ListFiles_loop (ListFiles_responses w) 0 [] = (Inl e, rs)"
  then show "fst (ChangedFiles ghc w) = Inl e" by (simp add: ChangedFiles_list_error)
  from a ListFiles_loop_error [of "ListFiles_responses w" 0 "[]" e rs]
  show "e \<noteq> TooManyFiles" by auto
next
  fix fs
  assume "files ghc = Some fs"
  then show "fst (ChangedFiles ghc w) =
      (if 300 \<le> length fs then Inl TooManyFiles else Inr (Some fs))"
    by (simp add: ChangedFiles_cached MaxPullRequestFiles_def)
next
  fix cs w'
  assume "commits ghc = None \<and> loadCommits ghc w = (Inr cs, w')"
  then show "fst (Commits ghc w) =
        (if 250 \<le> length cs then Inl TooManyCommits
         else Inr (Some (backfillPushedAt cs (HeadRefOID (pr ghc)))))"
    by (simp add: Commits_def MaxPullRequestCommits_def)
next
  fix e w'
  assume a: "commits ghc = None \<and> loadCommits ghc w = (Inl e, w')"
  then show "fst (Commits ghc w) = Inl e" by (simp add: Commits_def)
  from a loadCommits_loop_error [of ghc w 0 e w'] show "e \<noteq> TooManyCommits"
    by (simp add: loadCommits_def)
next
  fix cs
  assume "commits ghc = Some cs"
  then show "fst (Commits ghc w) = Inr (Some cs)" by (simp add: Commits_def)
qed

theorem size_ceilings_witness:
  "fst (ChangedFiles (pull False ''h'') (quiet\<lparr>ListFiles_responses := [one_page_of_files 300]\<rparr>)) =
     Inl TooManyFiles \<and>
   fst (ChangedFiles (pull False ''h'') (quiet\<lparr>ListFiles_responses := [one_page_of_files 299]\<rparr>)) =
     Inr (Some (map to_File (replicate 299 a_file))) \<and>
   fst (Commits (pull False ''h'') (quiet\<lparr>commits_responses := [long_history 249]\<rparr>)) =
     Inl TooManyCommits \<and>
   fst (Commits (pull False ''h'') (quiet\<lparr>commits_responses := [long_history 248]\<rparr>)) =
     Inr (Some (backfillPushedAt
       (map ToCommit (replicate 248 (raw_commit ''p'' [] None) @ [raw_commit ''h'' [''p''] (Some 42)]))
       ''h''))"
proof -
  let ?g = "pull False ''h''"
  have g: "files ?g = None" "commits ?g = None" "HeadRefOID (pr ?g) = ''h''"
    by (simp_all add: pull_def)
  have l: "ListFiles_loop (ListFiles_responses (quiet\<lparr>ListFiles_responses := [one_page_of_files n]\<rparr>)) 0 [] =
      (Inr (replicate n a_file), [])" for n
    by (simp add: one_page_of_files_def)
  from size_ceilings [of ?g "quiet\<lparr>ListFiles_responses := [one_page_of_files 300]\<rparr>"] g(1) l [of 300]
  have 1: "fst (ChangedFiles ?g (quiet\<lparr>ListFiles_responses := [one_page_of_files 300]\<rparr>)) =
     Inl TooManyFiles"
    by (elim conjE allE [where x = "replicate 300 a_file"]) (erule allE [where x = "[]"], simp)
  from size_ceilings [of ?g "quiet\<lparr>ListFiles_responses := [one_page_of_files 299]\<rparr>"] g(1) l [of 299]
  have 2: "fst (ChangedFiles ?g (quiet\<lparr>ListFiles_responses := [one_page_of_files 299]\<rparr>)) =
     Inr (Some (map to_File (replicate 299 a_file)))"
    by (elim conjE allE [where x = "replicate 299 a_file"]) (erule allE [where x = "[]"], simp)
  from size_ceilings [of ?g "quiet\<lparr>commits_responses := [long_history 249]\<rparr>"] g(2,3)
    loadCommits_long_history [of 249]
  have 3: "fst (Commits ?g (quiet\<lparr>commits_responses := [long_history 249]\<rparr>)) = Inl TooManyCommits"
    by (elim conjE) (erule allE impE, simp)+
  from size_ceilings [of ?g "quiet\<lparr>commits_responses := [long_history 248]\<rparr>"] g(2,3)
    loadCommits_long_history [of 248]
  have 4: "fst (Commits ?g (quiet\<lparr>commits_responses := [long_history 248]\<rparr>)) =
     Inr (Some (backfillPushedAt
       (map ToCommit (replicate 248 (raw_commit ''p'' [] None) @ [raw_commit ''h'' [''p''] (Some 42)]))
       ''h''))"
    by (elim conjE) (erule allE impE, simp)+
  from 1 2 3 4 show ?thesis by blast
qed

text \<open>
  C1, as the source has it. loadPushedAt runs its loop from the first page with the
  index of all fetched commits as the pending set: every fetched SHA, of a dated commit
  or an undated one, is pending with its commit. For a fetched page, the pending set
  loses exactly the OIDs the page returns; a pending commit whose OID the page returns
  gets the pushed date of the first node with that OID, set or unset, in place of the
  one it had, and every other commit stays as it was. With an empty pending set no page
  is queried, and a page that empties the set is the last one queried, whatever its page
  info says; a page that announces a successor is otherwise followed by the next query.
  So loadPushedAt succeeds after one query when the first page returns every fetched
  SHA, and does not succeed when some fetched SHA, dated or not, is returned by no page.
\<close>

theorem backfill_pending_set:
  "loadPushedAt ghc w fetched =
     (case loadPushedAt_loop (history_responses w) None (index_commits fetched) fetched of
        (r, m', cs', qs') \<Rightarrow>
          (case r of
             Some e \<Rightarrow> Some e
           | None \<Rightarrow> if m' = [] then None else Some (CommitsNotFound (length m')),
           cs', w\<lparr>history_responses := qs'\<rparr>)) \<and>
   fst ` set (index_commits fetched) = SHA ` set fetched \<and>
   index_ok (index_commits fetched) fetched \<and>
   (\<forall>s\<in>SHA ` set fetched. \<exists>i<length fetched. map_of (index_commits fetched) s = Some i \<and> SHA (fetched ! i) = s) \<and>
   (index_ok m cs \<longrightarrow>
      index_ok (fst (fold match_node ns (m, cs))) (snd (fold match_node ns (m, cs))) \<and>
      fst ` set (fst (fold match_node ns (m, cs))) = fst ` set m - hn_OID ` set ns \<and>
      (\<forall>k i n. map_of m k = Some i \<and> find (\<lambda>n. hn_OID n = k) ns = Some n \<longrightarrow>
         snd (fold match_node ns (m, cs)) ! i = (cs ! i)\<lparr>PushedAt := hn_PushedDate n\<rparr>) \<and>
      (\<forall>i. (\<forall>k\<in>hn_OID ` set ns. map_of m k \<noteq> Some i) \<longrightarrow>
         snd (fold match_node ns (m, cs)) ! i = cs ! i)) \<and>
   loadPushedAt_loop qs cur [] cs = (None, [], cs, qs) \<and>
   (\<forall>q d. m \<noteq> [] \<and> q cur = Some d \<and> fst ` set m \<subseteq> hn_OID ` set (Nodes d) \<longrightarrow>
      loadPushedAt_loop (q # qs) cur m cs =
        (None, [], snd (fold match_node (Nodes d) (m, cs)), qs)) \<and>
   (\<forall>q d. m \<noteq> [] \<and> q cur = Some d \<and> fst (UpdateCursor (PageInfo d) cur) \<longrightarrow>
      loadPushedAt_loop (q # qs) cur m cs =
        loadPushedAt_loop qs (snd (UpdateCursor (PageInfo d) cur))
          (fst (fold match_node (Nodes d) (m, cs))) (snd (fold match_node (Nodes d) (m, cs)))) \<and>
   (\<forall>q d qs'. fetched \<noteq> [] \<and> history_responses w = q # qs' \<and> q None = Some d \<and>
      SHA ` set fetched \<subseteq> hn_OID ` set (Nodes d) \<longrightarrow>
      loadPushedAt ghc w fetched =
        (None, snd (fold match_node (Nodes d) (index_commits fetched, fetched)),
         w\<lparr>history_responses := qs'\<rparr>)) \<and>
   (\<forall>s. s \<in> SHA ` set fetched \<and>
      (\<forall>q\<in>set (history_responses w). \<forall>c d. q c = Some d \<longrightarrow> s \<notin> hn_OID ` set (Nodes d)) \<longrightarrow>
      fst (loadPushedAt ghc w fetched) \<noteq> None)"
proof (intro conjI impI allI ballI)
  show "loadPushedAt ghc w fetched =
     (case loadPushedAt_loop (history_responses w) None (index_commits fetched) fetched of
        (r, m', cs', qs') \<Rightarrow>
          (case r of
             Some e \<Rightarrow> Some e
           | None \<Rightarrow> if m' = [] then None else Some (CommitsNotFound (length m')),
           cs', w\<lparr>history_responses := qs'\<rparr>))"
    by (simp add: loadPushedAt_def split: prod.splits option.splits)
  show "fst ` set (index_commits fetched) = SHA ` set fetched" by (rule index_commits_keys)
  show "index_ok (index_commits fetched) fetched" by (rule index_commits_ok)
  show "loadPushedAt_loop qs cur [] cs = (None, [], cs, qs)" by (rule loadPushedAt_loop_empty)
next
  fix s
  assume "s \<in> SHA ` set fetched"
  then have "s \<in> fst ` set (index_commits fetched)" by (simp only: index_commits_keys)
  then obtain i where i: "map_of (index_commits fetched) s = Some i"
    by (cases "map_of (index_commits fetched) s") (simp_all add: map_of_eq_None_iff)
  from index_ok_lookup [OF index_commits_ok i] i
  show "\<exists>i<length fetched. map_of (index_commits fetched) s = Some i \<and> SHA (fetched ! i) = s" by blast
next
  assume ok: "index_ok m cs"
  show "index_ok (fst (fold match_node ns (m, cs))) (snd (fold match_node ns (m, cs)))"
    by (rule fold_match_node_ok [OF ok])
  show "fst ` set (fst (fold match_node ns (m, cs))) = fst ` set m - hn_OID ` set ns"
    by (rule fold_match_node_keys)
next
  fix k i n
  assume ok: "index_ok m cs"
    and "map_of m k = Some i \<and> find (\<lambda>n. hn_OID n = k) ns = Some n"
  then show "snd (fold match_node ns (m, cs)) ! i = (cs ! i)\<lparr>PushedAt := hn_PushedDate n\<rparr>"
    using fold_match_node_matched [OF ok, of k i ns n] by simp
next
  fix i
  assume ok: "index_ok m cs" and "\<forall>k\<in>hn_OID ` set ns. map_of m k \<noteq> Some i"
  then show "snd (fold match_node ns (m, cs)) ! i = cs ! i"
    by (rule fold_match_node_unmatched)
next
  fix q :: "cursor \<Rightarrow> history_node connection option" and d
  assume "m \<noteq> [] \<and> q cur = Some d \<and> fst ` set m \<subseteq> hn_OID ` set (Nodes d)"
  then show "loadPushedAt_loop (q # qs) cur m cs =
        (None, [], snd (fold match_node (Nodes d) (m, cs)), qs)"
    using loadPushedAt_loop_last_match [of m q cur d qs cs] by simp
next
  fix q :: "cursor \<Rightarrow> history_node connection option" and d
  assume "m \<noteq> [] \<and> q cur = Some d \<and> fst (UpdateCursor (PageInfo d) cur)"
  then show "loadPushedAt_loop (q # qs) cur m cs =
        loadPushedAt_loop qs (snd (UpdateCursor (PageInfo d) cur))
          (fst (fold match_node (Nodes d) (m, cs))) (snd (fold match_node (Nodes d) (m, cs)))"
    using loadPushedAt_loop_next [of m q cur d qs cs] by simp
next
  fix q :: "cursor \<Rightarrow> history_node connection option" and d qs'
  assume a: "fetched \<noteq> [] \<and> history_responses w = q # qs' \<and> q None = Some d \<and>
      SHA ` set fetched \<subseteq> hn_OID ` set (Nodes d)"
  then have "fst ` set (index_commits fetched) \<noteq> {}" by (simp add: index_commits_keys)
  then have ne: "index_commits fetched \<noteq> []" by auto
  from a have sub: "fst ` set (index_commits fetched) \<subseteq> hn_OID ` set (Nodes d)"
    by (simp add: index_commits_keys)
  from a have q: "q None = Some d" by simp
  have "loadPushedAt_loop (q # qs') None (index_commits fetched) fetched =
      (None, [], snd (fold match_node (Nodes d) (index_commits fetched, fetched)), qs')"
    by (rule loadPushedAt_loop_last_match [where m = "index_commits fetched" and q = q and cur = None and d = d, OF ne q sub])
  with a show "loadPushedAt ghc w fetched =
        (None, snd (fold match_node (Nodes d) (index_commits fetched, fetched)),
         w\<lparr>history_responses := qs'\<rparr>)"
    by (simp add: loadPushedAt_def)
next
  fix s
  assume a: "s \<in> SHA ` set fetched \<and>
      (\<forall>q\<in>set (history_responses w). \<forall>c d. q c = Some d \<longrightarrow> s \<notin> hn_OID ` set (Nodes d))"
  then have key: "s \<in> fst ` set (index_commits fetched)" by (simp add: index_commits_keys)
  from a have no: "\<forall>q\<in>set (history_responses w). \<forall>c d. q c = Some d \<longrightarrow>
      s \<notin> hn_OID ` set (Nodes d)" by simp
  from loadPushedAt_loop_unmatched [OF key no, of None fetched]
  show "fst (loadPushedAt ghc w fetched) \<noteq> None"
    by (auto simp: loadPushedAt_result)
qed

theorem backfill_pending_set_witness:
  "index_ok (index_commits (map ToCommit undated)) (map ToCommit undated) \<and>
   fst ` set (index_commits (map ToCommit undated)) = {''p'', ''h''} \<and>
   fst ` set (fst (fold match_node [node_h]
     (index_commits (map ToCommit undated), map ToCommit undated))) = {''p''} \<and>
   PushedAt (snd (fold match_node [node_h]
     (index_commits (map ToCommit undated), map ToCommit undated)) ! 1) = Some 7 \<and>
   loadPushedAt_loop [history_p, some_history] (Some ''c1'') [(''p'', 0)]
     (snd (fold match_node [node_h] (index_commits (map ToCommit undated), map ToCommit undated))) =
     (None, [],
      snd (fold match_node [node_p] ([(''p'', 0)],
        snd (fold match_node [node_h] (index_commits (map ToCommit undated), map ToCommit undated)))),
      [some_history]) \<and>
   loadPushedAt (pull True ''h'')
     (quiet\<lparr>history_responses := [history_h, history_p, some_history]\<rparr>) (map ToCommit undated) =
     (None, map ToCommit [raw_commit ''p'' [] (Some 6), raw_commit ''h'' [''p''] (Some 7)],
      quiet\<lparr>history_responses := [some_history]\<rparr>) \<and>
   fst ` set (index_commits (map ToCommit dated_parent)) = {''p'', ''h''} \<and>
   loadPushedAt (pull True ''h'')
     (quiet\<lparr>history_responses := [history_both, some_history]\<rparr>) (map ToCommit dated_parent) =
     (None, map ToCommit [raw_commit ''p'' [] (Some 6), raw_commit ''h'' [''p''] (Some 7)],
      quiet\<lparr>history_responses := [some_history]\<rparr>) \<and>
   fst (loadPushedAt (pull True ''h'')
     (quiet\<lparr>history_responses := [history_h, history_end]\<rparr>) (map ToCommit dated_parent)) =
     Some (CommitsNotFound 1)"
proof -
  let ?g = "pull True ''h''"
  let ?cs = "map ToCommit undated"
  let ?m = "index_commits ?cs"
  let ?fs = "snd (fold match_node [node_h] (?m, ?cs))"
  let ?ds = "map ToCommit dated_parent"
  let ?v = "quiet\<lparr>history_responses := [history_both, some_history]\<rparr>"
  let ?u = "quiet\<lparr>history_responses := [history_h, history_end]\<rparr>"
  note t1 = backfill_pending_set [where fetched = ?cs and m = ?m and cs = ?cs and ns = "[node_h]"
      and qs = "[]" and cur = None and ghc = ?g
      and w = "quiet\<lparr>history_responses := [history_h, history_p, some_history]\<rparr>"]
  note t2 = backfill_pending_set [where fetched = ?cs and m = "[(''p'', 0)]" and cs = ?fs
      and ns = "[node_p]" and qs = "[some_history]" and cur = "Some ''c1''" and ghc = ?g
      and w = quiet]
  note t3 = backfill_pending_set [where fetched = ?ds and m = "[]" and cs = "[]" and ns = "[]"
      and qs = "[]" and cur = None and ghc = ?g and w = ?v]
  note t4 = backfill_pending_set [where fetched = ?ds and m = "[]" and cs = "[]" and ns = "[]"
      and qs = "[]" and cur = None and ghc = ?g and w = ?u]
  note t1_keys = t1 [THEN conjunct2, THEN conjunct1]
  note t1_ok = t1 [THEN conjunct2, THEN conjunct2, THEN conjunct1]
  note t1_page = t1 [THEN conjunct2, THEN conjunct2, THEN conjunct2, THEN conjunct2,
      THEN conjunct1]
  note t2_last = t2 [THEN conjunct2, THEN conjunct2, THEN conjunct2, THEN conjunct2,
      THEN conjunct2, THEN conjunct2, THEN conjunct1]
  note t3_keys = t3 [THEN conjunct2, THEN conjunct1]
  note t3_one = t3 [THEN conjunct2, THEN conjunct2, THEN conjunct2, THEN conjunct2,
      THEN conjunct2, THEN conjunct2, THEN conjunct2, THEN conjunct2, THEN conjunct1]
  note t4_none = t4 [THEN conjunct2, THEN conjunct2, THEN conjunct2, THEN conjunct2,
      THEN conjunct2, THEN conjunct2, THEN conjunct2, THEN conjunct2, THEN conjunct2]
  have ok: "index_ok ?m ?cs" by (rule t1_ok)
  have keys0: "fst ` set ?m = {''p'', ''h''}"
    unfolding t1_keys by (simp add: undated_def ToCommit_def raw_commit_def insert_commute)
  note t1_fold = t1_page [THEN mp, OF ok]
  have page: "fst ` set (fst (fold match_node [node_h] (?m, ?cs))) =
      fst ` set ?m - hn_OID ` set [node_h]"
    by (rule t1_fold [THEN conjunct2, THEN conjunct1])
  note upd = t1_fold [THEN conjunct2, THEN conjunct2, THEN conjunct1, THEN spec [where x = "''h''"],
      THEN spec [where x = 1], THEN spec [where x = node_h], THEN mp]
  have "{''p'', ''h''} - {''h''} = {''p''}" by auto
  with page have keys1: "fst ` set (fst (fold match_node [node_h] (?m, ?cs))) = {''p''}"
    unfolding keys0 by (simp add: node_h_def)
  have "map_of ?m ''h'' = Some 1 \<and> find (\<lambda>n. hn_OID n = ''h'') [node_h] = Some node_h"
    by (simp add: history_defs index_commits_def ToCommit_def raw_commit_def upt_rec)
  then have "?fs ! 1 = (?cs ! 1)\<lparr>PushedAt := hn_PushedDate node_h\<rparr>" by (rule upd)
  then have date: "PushedAt (?fs ! 1) = Some 7" by (simp add: node_h_def)
  have "[(''p'', 0 :: nat)] \<noteq> [] \<and> history_p (Some ''c1'') = Some (more_page ''c2'' [node_p]) \<and>
      fst ` set [(''p'', 0 :: nat)] \<subseteq> hn_OID ` set (Nodes (more_page ''c2'' [node_p]))"
    by (simp add: history_defs more_page_def)
  then have "loadPushedAt_loop (history_p # [some_history]) (Some ''c1'') [(''p'', 0)] ?fs =
      (None, [], snd (fold match_node (Nodes (more_page ''c2'' [node_p])) ([(''p'', 0)], ?fs)),
       [some_history])"
    by (rule t2_last [THEN spec [where x = history_p],
        THEN spec [where x = "more_page ''c2'' [node_p]"], THEN mp])
  then have stop: "loadPushedAt_loop [history_p, some_history] (Some ''c1'') [(''p'', 0)] ?fs =
      (None, [], snd (fold match_node [node_p] ([(''p'', 0)], ?fs)), [some_history])"
    by (simp only: more_page_def connection.simps)
  have run: "loadPushedAt ?g
     (quiet\<lparr>history_responses := [history_h, history_p, some_history]\<rparr>) ?cs =
     (None, map ToCommit [raw_commit ''p'' [] (Some 6), raw_commit ''h'' [''p''] (Some 7)],
      quiet\<lparr>history_responses := [some_history]\<rparr>)"
    by (simp add: history_defs backfill_eval)
  have keys2: "fst ` set (index_commits ?ds) = {''p'', ''h''}"
    unfolding t3_keys by (simp add: dated_parent_def ToCommit_def raw_commit_def insert_commute)
  have "?ds \<noteq> [] \<and> history_responses ?v = history_both # [some_history] \<and>
      history_both None = Some (last_page [node_p, node_h]) \<and>
      SHA ` set ?ds \<subseteq> hn_OID ` set (Nodes (last_page [node_p, node_h]))"
    by (simp add: history_defs history_both_def last_page_def ToCommit_def raw_commit_def)
  then have "loadPushedAt ?g ?v ?ds =
      (None, snd (fold match_node (Nodes (last_page [node_p, node_h])) (index_commits ?ds, ?ds)),
       ?v\<lparr>history_responses := [some_history]\<rparr>)"
    by (rule t3_one [THEN spec [where x = history_both],
        THEN spec [where x = "last_page [node_p, node_h]"],
        THEN spec [where x = "[some_history]"], THEN mp])
  also have "\<dots> =
     (None, map ToCommit [raw_commit ''p'' [] (Some 6), raw_commit ''h'' [''p''] (Some 7)],
      quiet\<lparr>history_responses := [some_history]\<rparr>)"
    by (simp add: history_defs backfill_eval)
  finally have both: "loadPushedAt ?g ?v ?ds =
     (None, map ToCommit [raw_commit ''p'' [] (Some 6), raw_commit ''h'' [''p''] (Some 7)],
      quiet\<lparr>history_responses := [some_history]\<rparr>)" .
  have "''p'' \<in> SHA ` set ?ds \<and>
      (\<forall>q\<in>set (history_responses ?u). \<forall>c d. q c = Some d \<longrightarrow> ''p'' \<notin> hn_OID ` set (Nodes d))"
    by (auto simp: history_defs more_page_def last_page_def ToCommit_def raw_commit_def)
  then have some: "fst (loadPushedAt ?g ?u ?ds) \<noteq> None"
    by (rule t4_none [THEN spec [where x = "''p''"], THEN mp])
  have "fst (loadPushedAt ?g ?u ?ds) = None \<or>
      fst (loadPushedAt ?g ?u ?ds) = Some (CommitsNotFound 1)"
    by (simp add: history_defs backfill_eval)
  then have fails: "fst (loadPushedAt ?g ?u ?ds) = Some (CommitsNotFound 1)"
  proof (rule disjE)
    assume "fst (loadPushedAt ?g ?u ?ds) = None"
    with some show ?thesis by (rule notE)
  next
    assume "fst (loadPushedAt ?g ?u ?ds) = Some (CommitsNotFound 1)"
    then show ?thesis .
  qed
  show ?thesis
    by (intro conjI) (rule ok keys0 keys1 date stop run keys2 both fails)+
qed

text \<open>
  C1, as stated, fails. For a parent that already has a pushed date and an undated
  head, the pending set is not the set of undated commits at the start. For two undated
  commits and a history node for the head whose pushed date is unset, the head leaves
  the pending set and is undated still. In the first case no commit is undated after
  the first history page, yet the second page is queried and the backfill fails, the
  dated parent not being found.
\<close>

theorem pending_set_is_not_the_undated_commits:
  "set (map fst (index_commits (map ToCommit dated_parent))) \<noteq>
     set (missing_SHAs (map ToCommit dated_parent)) \<and>
   set (map fst (fst (fold match_node [node_undated]
     (index_commits (map ToCommit undated), map ToCommit undated)))) \<noteq>
     set (missing_SHAs (snd (fold match_node [node_undated]
       (index_commits (map ToCommit undated), map ToCommit undated)))) \<and>
   missing_SHAs (snd (fold match_node [node_h]
     (index_commits (map ToCommit dated_parent), map ToCommit dated_parent))) = [] \<and>
   fst (loadPushedAt (pull True ''h'')
     (quiet\<lparr>history_responses := [history_h, history_end, some_history]\<rparr>)
     (map ToCommit dated_parent)) = Some (CommitsNotFound 1) \<and>
   history_responses (snd (snd (loadPushedAt (pull True ''h'')
     (quiet\<lparr>history_responses := [history_h, history_end, some_history]\<rparr>)
     (map ToCommit dated_parent)))) = [some_history]"
  by (simp add: history_defs node_undated_def backfill_eval missing_SHAs_def)

text \<open>
  C5. If some commit's SHA is returned by no history page, loadPushedAt fails: with
  CommitsNotFound and the positive number of unmatched SHAs when the pages run out
  (every query answered, the last page announcing no successor), and otherwise with the
  query's failure. loadCommits and Commits return that error from the same pass, with
  no sleep and no further fetch of the commits, and nothing is cached.
\<close>

theorem backfill_incomplete:
  assumes "s \<in> SHA ` set cs"
    and "\<forall>q\<in>set (history_responses w). \<forall>cur d. q cur = Some d \<longrightarrow> s \<notin> hn_OID ` set (Nodes d)"
  shows "(\<exists>e cs' w'. loadPushedAt ghc w cs = (Some e, cs', w') \<and>
            (e = FailedToLoadPushedDates \<or> e = NoResponse \<or> (\<exists>n>0. e = CommitsNotFound n)) \<and>
            (history_responses w \<noteq> [] \<and>
             (\<forall>q\<in>set (history_responses w). \<forall>cur. q cur \<noteq> None) \<and>
             (\<forall>cur d. last (history_responses w) cur = Some d \<longrightarrow>
                \<not> fst (UpdateCursor (PageInfo d) cur)) \<longrightarrow>
             (\<exists>n>0. e = CommitsNotFound n)) \<and>
            (\<forall>w0 raw i a. loadRawCommits ghc w0 = (Inr raw, w) \<and> map ToCommit raw = cs \<and>
               find_head cs (HeadRefOID (pr ghc)) = Some i \<and>
               IsCrossRepository (pr ghc) \<and> PushedAt (cs ! i) = None \<longrightarrow>
               loadCommits_loop ghc w0 a = (Inl e, w') \<and>
               slept w' = slept w0 \<and> commits_responses w' = commits_responses w \<and>
               (commits ghc = None \<longrightarrow> Commits ghc w0 = (Inl e, ghc, w'))))"
proof -
  let ?run = "loadPushedAt_loop (history_responses w) None (index_commits cs) cs"
  have key: "s \<in> fst ` set (index_commits cs)"
    using assms(1) by (simp add: index_commits_keys)
  note un = loadPushedAt_loop_unmatched [OF key assms(2), of None cs]
  obtain r cs' w' where lp: "loadPushedAt ghc w cs = (r, cs', w')" by (metis prod_cases3)
  have r: "r = (case fst ?run of Some e \<Rightarrow> Some e
      | None \<Rightarrow> if length (fst (snd ?run)) > 0
                 then Some (CommitsNotFound (length (fst (snd ?run)))) else None)"
    using lp by (simp add: loadPushedAt_result)
  from un have "\<exists>e. r = Some e \<and>
      (e = FailedToLoadPushedDates \<or> e = NoResponse \<or> (\<exists>n>0. e = CommitsNotFound n))"
    unfolding r by (auto split: option.splits)
  then obtain e where e: "r = Some e"
    "e = FailedToLoadPushedDates \<or> e = NoResponse \<or> (\<exists>n>0. e = CommitsNotFound n)" by blast
  have ex: "\<exists>n>0. e = CommitsNotFound n"
    if "history_responses w \<noteq> []" "\<forall>q\<in>set (history_responses w). \<forall>cur. q cur \<noteq> None"
      "\<forall>cur d. last (history_responses w) cur = Some d \<longrightarrow> \<not> fst (UpdateCursor (PageInfo d) cur)"
  proof -
    have "fst ?run = None"
      by (rule loadPushedAt_loop_exhausted [OF key assms(2) that])
    with un e(1) show ?thesis unfolding r by (auto split: if_splits)
  qed
  have nr: "loadCommits_loop ghc w0 a = (Inl e, w') \<and>
      slept w' = slept w0 \<and> commits_responses w' = commits_responses w \<and>
      (commits ghc = None \<longrightarrow> Commits ghc w0 = (Inl e, ghc, w'))"
    if "loadRawCommits ghc w0 = (Inr raw, w)" "map ToCommit raw = cs"
      "find_head cs (HeadRefOID (pr ghc)) = Some i" "IsCrossRepository (pr ghc)"
      "PushedAt (cs ! i) = None" for w0 raw i a
  proof -
    from that lp e(1) have lp': "loadPushedAt ghc w (map ToCommit raw) = (Some e, cs', w')" by simp
    note l = loadCommits_loop_backfill_error [OF that(1) that(3) [folded that(2)] that(4)
        that(5) [folded that(2)] lp']
    from l(1) [of 0] have "commits ghc = None \<longrightarrow> Commits ghc w0 = (Inl e, ghc, w')"
      by (simp add: Commits_def loadCommits_def)
    with l show ?thesis by simp
  qed
  show ?thesis
  proof (intro exI conjI)
    show "loadPushedAt ghc w cs = (Some e, cs', w')" using lp e(1) by simp
    show "e = FailedToLoadPushedDates \<or> e = NoResponse \<or> (\<exists>n>0. e = CommitsNotFound n)"
      by (rule e(2))
    show "history_responses w \<noteq> [] \<and>
             (\<forall>q\<in>set (history_responses w). \<forall>cur. q cur \<noteq> None) \<and>
             (\<forall>cur d. last (history_responses w) cur = Some d \<longrightarrow>
                \<not> fst (UpdateCursor (PageInfo d) cur)) \<longrightarrow>
             (\<exists>n>0. e = CommitsNotFound n)"
      using ex by blast
    show "\<forall>w0 raw i a. loadRawCommits ghc w0 = (Inr raw, w) \<and> map ToCommit raw = cs \<and>
               find_head cs (HeadRefOID (pr ghc)) = Some i \<and>
               IsCrossRepository (pr ghc) \<and> PushedAt (cs ! i) = None \<longrightarrow>
               loadCommits_loop ghc w0 a = (Inl e, w') \<and>
               slept w' = slept w0 \<and> commits_responses w' = commits_responses w \<and>
               (commits ghc = None \<longrightarrow> Commits ghc w0 = (Inl e, ghc, w'))"
      using nr by blast
  qed
qed


theorem backfill_incomplete_witness:
  "''p'' \<in> SHA ` set (map ToCommit undated) \<and>
   fst (loadPushedAt (pull True ''h'')
     (quiet\<lparr>commits_responses := [set_head], history_responses := [history_h, history_end]\<rparr>)
     (map ToCommit undated)) = Some (CommitsNotFound 1) \<and>
   Commits (pull True ''h'')
     (quiet\<lparr>commits_responses := [unset_head, set_head],
        history_responses := [history_h, history_end]\<rparr>) =
     (Inl (CommitsNotFound 1), pull True ''h'',
      quiet\<lparr>commits_responses := [set_head], history_responses := []\<rparr>)"
proof -
  let ?g = "pull True ''h''"
  let ?cs = "map ToCommit undated"
  let ?w = "quiet\<lparr>commits_responses := [set_head], history_responses := [history_h, history_end]\<rparr>"
  let ?v = "quiet\<lparr>commits_responses := [unset_head, set_head],
        history_responses := [history_h, history_end]\<rparr>"
  have h1: "''p'' \<in> SHA ` set ?cs" by (simp add: undated_def ToCommit_def raw_commit_def)
  have h2: "\<forall>q\<in>set (history_responses ?w). \<forall>cur d. q cur = Some d \<longrightarrow>
      ''p'' \<notin> hn_OID ` set (Nodes d)"
    by (auto simp: history_defs more_page_def last_page_def)
  have ev: "loadPushedAt ?g ?w ?cs =
      (Some (CommitsNotFound 1),
       map ToCommit [raw_commit ''p'' [] None, raw_commit ''h'' [''p''] (Some 7)],
       quiet\<lparr>commits_responses := [set_head], history_responses := []\<rparr>)"
    by (simp add: history_defs backfill_eval)
  have raw: "loadRawCommits ?g ?v = (Inr undated, ?w)"
    by (simp add: loadRawCommits_def unset_head_def undated_def last_page_def UpdateCursor_def
          quiet_def)
  have ctx: "find_head ?cs (HeadRefOID (pr ?g)) = Some 1 \<and> IsCrossRepository (pr ?g) \<and>
      PushedAt (?cs ! 1) = None \<and> commits ?g = None"
    by (simp add: find_head_def undated_def ToCommit_def raw_commit_def pull_def upt_rec)
  from backfill_incomplete [OF h1 h2, of ?g] obtain e cs' w' where
    lp: "loadPushedAt ?g ?w ?cs = (Some e, cs', w')" and
    nr: "\<forall>w0 raw i a. loadRawCommits ?g w0 = (Inr raw, ?w) \<and> map ToCommit raw = ?cs \<and>
               find_head ?cs (HeadRefOID (pr ?g)) = Some i \<and>
               IsCrossRepository (pr ?g) \<and> PushedAt (?cs ! i) = None \<longrightarrow>
               loadCommits_loop ?g w0 a = (Inl e, w') \<and>
               slept w' = slept w0 \<and> commits_responses w' = commits_responses ?w \<and>
               (commits ?g = None \<longrightarrow> Commits ?g w0 = (Inl e, ?g, w'))"
    by blast
  from lp ev have e: "e = CommitsNotFound 1"
    "w' = quiet\<lparr>commits_responses := [set_head], history_responses := []\<rparr>" by simp_all
  from nr raw ctx have "Commits ?g ?v = (Inl e, ?g, w')" by blast
  with e h1 ev show ?thesis by simp
qed

text \<open>
  C4, as the source has it. Against a platform that pages C comments and R reviews by
  100, answering every query from the same two lists, loadPagedData issues exactly
  max(1, ceil(C/100), ceil(R/100)) combined queries, then stops, and caches all C
  comments and all R reviews, mapped, in the platform's order.
\<close>

theorem joint_pagination:
  assumes "paged_responses w =
     replicate (max 1 (max (ceil100 (length cs)) (ceil100 (length rs)))) (platform_paged cs rs) @ rest"
  shows "loadPagedData lower ghc w =
           (None, ghc\<lparr>comments := Some (map ToComment cs), reviews := Some (map (ToReview lower) rs)\<rparr>,
            w\<lparr>paged_responses := rest\<rparr>) \<and>
         paged_round_trips w (snd (snd (loadPagedData lower ghc w))) =
           max 1 (max (ceil100 (length cs)) (ceil100 (length rs)))"
proof -
  let ?k = "max 1 (max (ceil100 (length cs)) (ceil100 (length rs)))"
  have "loadPagedData_loop lower (replicate ?k (platform_paged cs rs) @ rest)
           (cursor_after 0) (cursor_after 0)
           (map ToComment (take 0 cs)) (map (ToReview lower) (take 0 rs)) =
         (Inr (map ToComment cs, map (ToReview lower) rs), rest)"
    by (rule loadPagedData_loop_platform) simp_all
  then have run: "loadPagedData_loop lower (paged_responses w) None None [] [] =
         (Inr (map ToComment cs, map (ToReview lower) rs), rest)"
    by (simp add: assms cursor_after_def)
  then have res: "loadPagedData lower ghc w =
           (None, ghc\<lparr>comments := Some (map ToComment cs), reviews := Some (map (ToReview lower) rs)\<rparr>,
            w\<lparr>paged_responses := rest\<rparr>)"
    by (simp add: loadPagedData_def)
  have "paged_round_trips w (w\<lparr>paged_responses := rest\<rparr>) = ?k"
    by (simp add: paged_round_trips_def assms)
  with res show ?thesis by simp
qed

theorem joint_pagination_witness:
  "loadPagedData ascii_ToLower (pull False ''h'')
     (quiet\<lparr>paged_responses :=
        [platform_paged (replicate 150 a_comment) (replicate 20 a_review),
         platform_paged (replicate 150 a_comment) (replicate 20 a_review),
         platform_paged (replicate 150 a_comment) (replicate 20 a_review)]\<rparr>) =
     (None,
      (pull False ''h'')\<lparr>comments := Some (map ToComment (replicate 150 a_comment)),
                          reviews := Some (map (ToReview ascii_ToLower) (replicate 20 a_review))\<rparr>,
      quiet\<lparr>paged_responses := [platform_paged (replicate 150 a_comment) (replicate 20 a_review)]\<rparr>) \<and>
   paged_round_trips
     (quiet\<lparr>paged_responses :=
        [platform_paged (replicate 150 a_comment) (replicate 20 a_review),
         platform_paged (replicate 150 a_comment) (replicate 20 a_review),
         platform_paged (replicate 150 a_comment) (replicate 20 a_review)]\<rparr>)
     (quiet\<lparr>paged_responses := [platform_paged (replicate 150 a_comment) (replicate 20 a_review)]\<rparr>) = 2"
proof -
  let ?srv = "platform_paged (replicate 150 a_comment) (replicate 20 a_review)"
  let ?w = "quiet\<lparr>paged_responses := [?srv, ?srv, ?srv]\<rparr>"
  have k: "max 1 (max (ceil100 (length (replicate 150 a_comment)))
      (ceil100 (length (replicate 20 a_review)))) = 2"
    by (simp add: ceil100_def)
  have two: "replicate 2 ?srv = [?srv, ?srv]" by (simp add: numeral_2_eq_2)
  have h: "paged_responses ?w =
      replicate (max 1 (max (ceil100 (length (replicate 150 a_comment)))
        (ceil100 (length (replicate 20 a_review))))) ?srv @ [?srv]"
    by (simp only: k two) (simp add: quiet_def)
  note t = joint_pagination [OF h, where ghc = "pull False ''h''" and lower = ascii_ToLower]
  from t have 1: "loadPagedData ascii_ToLower (pull False ''h'') ?w =
     (None,
      (pull False ''h'')\<lparr>comments := Some (map ToComment (replicate 150 a_comment)),
                          reviews := Some (map (ToReview ascii_ToLower) (replicate 20 a_review))\<rparr>,
      ?w\<lparr>paged_responses := [?srv]\<rparr>)" by (rule conjunct1)
  from t [THEN conjunct2]
  have "paged_round_trips ?w (snd (snd (loadPagedData ascii_ToLower (pull False ''h'') ?w))) = 2"
    by (simp only: k)
  then have 2: "paged_round_trips ?w (?w\<lparr>paged_responses := [?srv]\<rparr>) = 2"
    by (simp only: 1 snd_conv)
  have w: "?w\<lparr>paged_responses := [?srv]\<rparr> = quiet\<lparr>paged_responses := [?srv]\<rparr>"
    by simp
  from 1 2 show ?thesis by (simp only: w)
qed

text \<open>
  C4, as stated, fails for a pull request with no comment and no review: the formula
  max(ceil(0/100), ceil(0/100)) gives no round-trip, the loop makes one.
\<close>

theorem no_comments_one_round_trip:
  "paged_round_trips
     (quiet\<lparr>paged_responses := [platform_paged [] [], platform_paged [] []]\<rparr>)
     (snd (snd (loadPagedData ascii_ToLower (pull False ''h'')
        (quiet\<lparr>paged_responses := [platform_paged [] [], platform_paged [] []]\<rparr>)))) = 1 \<and>
   max (ceil100 (length ([] :: v4IssueComment list))) (ceil100 (length ([] :: v4PullRequestReview list))) = 0"
  by (simp add: paged_round_trips_def loadPagedData_def platform_paged_def connection_page_def
        UpdateCursor_def quiet_def ceil100_def)

text \<open>
  C9, as the source has it. Commits, Comments and Reviews: a failed call returns the
  context it was given, so nothing of the failed load is kept and the next call loads
  again; a successful call stores its result (Comments and Reviews store both lists),
  and any later call, on any state of the platform, returns the stored list and leaves
  the platform untouched. ChangedFiles: a failed listing returns the context it was
  given; a listing that is not empty is stored before its size is tested, so below the
  ceiling this and every later call return the list, and at or above the ceiling this
  and every later call fail with TooManyFiles, the later ones without a query.
\<close>

theorem accessor_caching:
  "(files ghc = None \<and> ListFiles_loop (ListFiles_responses w) 0 [] = (Inl e, rs) \<longrightarrow>
      ChangedFiles ghc w = (Inl e, ghc, w\<lparr>ListFiles_responses := rs\<rparr>)) \<and>
   (files ghc = None \<and> ListFiles_loop (ListFiles_responses w) 0 [] = (Inr fs, rs) \<and> fs \<noteq> [] \<longrightarrow>
      ChangedFiles ghc w =
        (if 300 \<le> length fs then Inl TooManyFiles else Inr (Some (map to_File fs)),
         ghc\<lparr>files := Some (map to_File fs)\<rparr>, w\<lparr>ListFiles_responses := rs\<rparr>) \<and>
      ChangedFiles (ghc\<lparr>files := Some (map to_File fs)\<rparr>) v =
        (if 300 \<le> length fs then Inl TooManyFiles else Inr (Some (map to_File fs)),
         ghc\<lparr>files := Some (map to_File fs)\<rparr>, v)) \<and>
   (commits ghc = None \<and> loadCommits ghc w = (Inl e, w') \<longrightarrow> Commits ghc w = (Inl e, ghc, w')) \<and>
   (commits ghc = None \<and> loadCommits ghc w = (Inr cs, w') \<and> 250 \<le> length cs \<longrightarrow>
      Commits ghc w = (Inl TooManyCommits, ghc, w')) \<and>
   (commits ghc = None \<and> loadCommits ghc w = (Inr cs, w') \<and> length cs < 250 \<longrightarrow>
      Commits ghc w =
        (Inr (Some (backfillPushedAt cs (HeadRefOID (pr ghc)))),
         ghc\<lparr>commits := Some (backfillPushedAt cs (HeadRefOID (pr ghc)))\<rparr>, w') \<and>
      Commits (ghc\<lparr>commits := Some (backfillPushedAt cs (HeadRefOID (pr ghc)))\<rparr>) v =
        (Inr (Some (backfillPushedAt cs (HeadRefOID (pr ghc)))),
         ghc\<lparr>commits := Some (backfillPushedAt cs (HeadRefOID (pr ghc)))\<rparr>, v)) \<and>
   (loadPagedData_loop lower (paged_responses w) None None [] [] = (Inl e, qs) \<longrightarrow>
      (comments ghc = None \<longrightarrow> Comments lower ghc w = (Inl e, ghc, w\<lparr>paged_responses := qs\<rparr>)) \<and>
      (reviews ghc = None \<longrightarrow> Reviews lower ghc w = (Inl e, ghc, w\<lparr>paged_responses := qs\<rparr>))) \<and>
   (loadPagedData_loop lower (paged_responses w) None None [] [] = (Inr (ms, rv), qs) \<longrightarrow>
      (comments ghc = None \<longrightarrow>
         Comments lower ghc w =
           (Inr (Some ms), ghc\<lparr>comments := Some ms, reviews := Some rv\<rparr>,
            w\<lparr>paged_responses := qs\<rparr>)) \<and>
      (reviews ghc = None \<longrightarrow>
         Reviews lower ghc w =
           (Inr (Some rv), ghc\<lparr>comments := Some ms, reviews := Some rv\<rparr>,
            w\<lparr>paged_responses := qs\<rparr>)) \<and>
      Comments lower (ghc\<lparr>comments := Some ms, reviews := Some rv\<rparr>) v =
        (Inr (Some ms), ghc\<lparr>comments := Some ms, reviews := Some rv\<rparr>, v) \<and>
      Reviews lower (ghc\<lparr>comments := Some ms, reviews := Some rv\<rparr>) v =
        (Inr (Some rv), ghc\<lparr>comments := Some ms, reviews := Some rv\<rparr>, v))"
proof (intro conjI impI)
  assume "files ghc = None \<and> ListFiles_loop (ListFiles_responses w) 0 [] = (Inl e, rs)"
  then show "ChangedFiles ghc w = (Inl e, ghc, w\<lparr>ListFiles_responses := rs\<rparr>)"
    by (simp add: ChangedFiles_list_error)
next
  assume a: "files ghc = None \<and> ListFiles_loop (ListFiles_responses w) 0 [] = (Inr fs, rs) \<and> fs \<noteq> []"
  then show "ChangedFiles ghc w =
        (if 300 \<le> length fs then Inl TooManyFiles else Inr (Some (map to_File fs)),
         ghc\<lparr>files := Some (map to_File fs)\<rparr>, w\<lparr>ListFiles_responses := rs\<rparr>)"
    by (simp add: ChangedFiles_listed MaxPullRequestFiles_def)
  show "ChangedFiles (ghc\<lparr>files := Some (map to_File fs)\<rparr>) v =
        (if 300 \<le> length fs then Inl TooManyFiles else Inr (Some (map to_File fs)),
         ghc\<lparr>files := Some (map to_File fs)\<rparr>, v)"
    by (simp add: ChangedFiles_cached MaxPullRequestFiles_def)
next
  assume "commits ghc = None \<and> loadCommits ghc w = (Inl e, w')"
  then show "Commits ghc w = (Inl e, ghc, w')" by (simp add: Commits_def)
next
  assume "commits ghc = None \<and> loadCommits ghc w = (Inr cs, w') \<and> 250 \<le> length cs"
  then show "Commits ghc w = (Inl TooManyCommits, ghc, w')"
    by (simp add: Commits_def MaxPullRequestCommits_def)
next
  assume "commits ghc = None \<and> loadCommits ghc w = (Inr cs, w') \<and> length cs < 250"
  then show "Commits ghc w =
        (Inr (Some (backfillPushedAt cs (HeadRefOID (pr ghc)))),
         ghc\<lparr>commits := Some (backfillPushedAt cs (HeadRefOID (pr ghc)))\<rparr>, w')"
    by (simp add: Commits_def MaxPullRequestCommits_def)
  show "Commits (ghc\<lparr>commits := Some (backfillPushedAt cs (HeadRefOID (pr ghc)))\<rparr>) v =
        (Inr (Some (backfillPushedAt cs (HeadRefOID (pr ghc)))),
         ghc\<lparr>commits := Some (backfillPushedAt cs (HeadRefOID (pr ghc)))\<rparr>, v)"
    by (simp add: Commits_def)
next
  assume a: "loadPagedData_loop lower (paged_responses w) None None [] [] = (Inl e, qs)"
  {
    assume "comments ghc = None"
    with a show "Comments lower ghc w = (Inl e, ghc, w\<lparr>paged_responses := qs\<rparr>)"
      by (simp add: Comments_def loadPagedData_def)
  }
  {
    assume "reviews ghc = None"
    with a show "Reviews lower ghc w = (Inl e, ghc, w\<lparr>paged_responses := qs\<rparr>)"
      by (simp add: Reviews_def loadPagedData_def)
  }
next
  assume a: "loadPagedData_loop lower (paged_responses w) None None [] [] = (Inr (ms, rv), qs)"
  {
    assume "comments ghc = None"
    with a show "Comments lower ghc w =
           (Inr (Some ms), ghc\<lparr>comments := Some ms, reviews := Some rv\<rparr>,
            w\<lparr>paged_responses := qs\<rparr>)"
      by (simp add: Comments_def loadPagedData_def)
  }
  {
    assume "reviews ghc = None"
    with a show "Reviews lower ghc w =
           (Inr (Some rv), ghc\<lparr>comments := Some ms, reviews := Some rv\<rparr>,
            w\<lparr>paged_responses := qs\<rparr>)"
      by (simp add: Reviews_def loadPagedData_def)
  }
  show "Comments lower (ghc\<lparr>comments := Some ms, reviews := Some rv\<rparr>) v =
        (Inr (Some ms), ghc\<lparr>comments := Some ms, reviews := Some rv\<rparr>, v)"
    by (simp add: Comments_def)
  show "Reviews lower (ghc\<lparr>comments := Some ms, reviews := Some rv\<rparr>) v =
        (Inr (Some rv), ghc\<lparr>comments := Some ms, reviews := Some rv\<rparr>, v)"
    by (simp add: Reviews_def)
qed

theorem accessor_caching_witness:
  "ChangedFiles (pull False ''h'') busy =
     (Inr (Some (map to_File (replicate 2 a_file))),
      (pull False ''h'')\<lparr>files := Some (map to_File (replicate 2 a_file))\<rparr>,
      busy\<lparr>ListFiles_responses := []\<rparr>) \<and>
   ChangedFiles ((pull False ''h'')\<lparr>files := Some (map to_File (replicate 2 a_file))\<rparr>) quiet =
     (Inr (Some (map to_File (replicate 2 a_file))),
      (pull False ''h'')\<lparr>files := Some (map to_File (replicate 2 a_file))\<rparr>, quiet) \<and>
   Commits (pull False ''h'') busy =
     (Inl HeadCommitMissing, pull False ''h'', busy\<lparr>commits_responses := []\<rparr>) \<and>
   Comments ascii_ToLower (pull False ''h'') busy =
     (Inr (Some [ToComment a_comment]),
      (pull False ''h'')\<lparr>comments := Some [ToComment a_comment], reviews := Some [ToReview ascii_ToLower a_review]\<rparr>,
      busy\<lparr>paged_responses := []\<rparr>) \<and>
   Reviews ascii_ToLower ((pull False ''h'')\<lparr>comments := Some [ToComment a_comment],
              reviews := Some [ToReview ascii_ToLower a_review]\<rparr>) quiet =
     (Inr (Some [ToReview ascii_ToLower a_review]),
      (pull False ''h'')\<lparr>comments := Some [ToComment a_comment], reviews := Some [ToReview ascii_ToLower a_review]\<rparr>,
      quiet)"
proof -
  let ?g = "pull False ''h''"
  have g: "files ?g = None" "commits ?g = None" "comments ?g = None" "reviews ?g = None"
    by (simp_all add: pull_def)
  have f: "ListFiles_loop (ListFiles_responses busy) 0 [] = (Inr (replicate 2 a_file), []) \<and>
      replicate 2 a_file \<noteq> [] \<and> \<not> 300 \<le> length (replicate 2 a_file)"
    by (simp add: busy_def one_page_of_files_def)
  have c: "loadCommits ?g busy = (Inl HeadCommitMissing, busy\<lparr>commits_responses := []\<rparr>)"
    by (simp add: busy_def headless_def ex_defs loadCommits_def loadCommits_loop.simps attempt_defs)
  have p: "loadPagedData_loop ascii_ToLower (paged_responses busy) None None [] [] =
      (Inr ([ToComment a_comment], [ToReview ascii_ToLower a_review]), [])"
    by (simp add: busy_def platform_paged_def connection_page_def UpdateCursor_def)
  note t = accessor_caching [where lower = ascii_ToLower and ghc = ?g and w = busy and v = quiet
      and e = HeadCommitMissing
      and fs = "replicate 2 a_file" and rs = "[]" and w' = "busy\<lparr>commits_responses := []\<rparr>"
      and ms = "[ToComment a_comment]" and rv = "[ToReview ascii_ToLower a_review]" and qs = "[]"]
  from t g(1) f have 1: "ChangedFiles ?g busy =
     (Inr (Some (map to_File (replicate 2 a_file))),
      ?g\<lparr>files := Some (map to_File (replicate 2 a_file))\<rparr>, busy\<lparr>ListFiles_responses := []\<rparr>)"
    and 2: "ChangedFiles (?g\<lparr>files := Some (map to_File (replicate 2 a_file))\<rparr>) quiet =
     (Inr (Some (map to_File (replicate 2 a_file))),
      ?g\<lparr>files := Some (map to_File (replicate 2 a_file))\<rparr>, quiet)"
    by simp_all
  from t g(2) c have 3: "Commits ?g busy =
     (Inl HeadCommitMissing, ?g, busy\<lparr>commits_responses := []\<rparr>)"
    by blast
  from t g(3) p have 4: "Comments ascii_ToLower ?g busy =
     (Inr (Some [ToComment a_comment]),
      ?g\<lparr>comments := Some [ToComment a_comment], reviews := Some [ToReview ascii_ToLower a_review]\<rparr>,
      busy\<lparr>paged_responses := []\<rparr>)"
    by blast
  from t p have 5: "Reviews ascii_ToLower (?g\<lparr>comments := Some [ToComment a_comment],
              reviews := Some [ToReview ascii_ToLower a_review]\<rparr>) quiet =
     (Inr (Some [ToReview ascii_ToLower a_review]),
      ?g\<lparr>comments := Some [ToComment a_comment], reviews := Some [ToReview ascii_ToLower a_review]\<rparr>, quiet)"
    by blast
  from 1 2 3 4 5 show ?thesis by blast
qed

text \<open>
  C9, as stated, fails for ChangedFiles. A call that fails on 300 files has stored
  them: the next call fails again without a query, where a call on the untouched
  context would have listed the files anew and returned the one file now there. And a
  call that succeeds with no file stores nothing, so the next call queries again.
\<close>

theorem oversized_file_list_is_cached:
  "ChangedFiles (pull False ''h'')
     (quiet\<lparr>ListFiles_responses := [one_page_of_files 300, one_page_of_files 1]\<rparr>) =
     (Inl TooManyFiles,
      (pull False ''h'')\<lparr>files := Some (map to_File (replicate 300 a_file))\<rparr>,
      quiet\<lparr>ListFiles_responses := [one_page_of_files 1]\<rparr>) \<and>
   ChangedFiles ((pull False ''h'')\<lparr>files := Some (map to_File (replicate 300 a_file))\<rparr>)
     (quiet\<lparr>ListFiles_responses := [one_page_of_files 1]\<rparr>) =
     (Inl TooManyFiles,
      (pull False ''h'')\<lparr>files := Some (map to_File (replicate 300 a_file))\<rparr>,
      quiet\<lparr>ListFiles_responses := [one_page_of_files 1]\<rparr>) \<and>
   ChangedFiles (pull False ''h'') (quiet\<lparr>ListFiles_responses := [one_page_of_files 1]\<rparr>) =
     (Inr (Some (map to_File (replicate 1 a_file))),
      (pull False ''h'')\<lparr>files := Some (map to_File (replicate 1 a_file))\<rparr>,
      quiet\<lparr>ListFiles_responses := []\<rparr>) \<and>
   ChangedFiles (pull False ''h'')
     (quiet\<lparr>ListFiles_responses := [one_page_of_files 0, one_page_of_files 0]\<rparr>) =
     (Inr None, pull False ''h'', quiet\<lparr>ListFiles_responses := [one_page_of_files 0]\<rparr>) \<and>
   ChangedFiles (pull False ''h'') (quiet\<lparr>ListFiles_responses := [one_page_of_files 0]\<rparr>) =
     (Inr None, pull False ''h'', quiet\<lparr>ListFiles_responses := []\<rparr>)"
proof -
  let ?g = "pull False ''h''"
  have g: "files ?g = None" "?g\<lparr>files := None\<rparr> = ?g" by (simp_all add: pull_def)
  have l: "ListFiles_loop (ListFiles_responses (quiet\<lparr>ListFiles_responses := one_page_of_files n # rs\<rparr>)) 0 [] =
      (Inr (replicate n a_file), rs)" for n rs
    by (simp add: one_page_of_files_def)
  have w: "quiet\<lparr>ListFiles_responses := a, ListFiles_responses := b\<rparr> =
      quiet\<lparr>ListFiles_responses := b\<rparr>" for a b by simp
  show ?thesis
    using ChangedFiles_listed [OF g(1) l [of 300 "[one_page_of_files 1]"]]
      ChangedFiles_cached [of "?g\<lparr>files := Some (map to_File (replicate 300 a_file))\<rparr>"
        "map to_File (replicate 300 a_file)" "quiet\<lparr>ListFiles_responses := [one_page_of_files 1]\<rparr>"]
      ChangedFiles_listed [OF g(1) l [of 1 "[]"]]
      ChangedFiles_listed [OF g(1) l [of 0 "[one_page_of_files 0]"]]
      ChangedFiles_listed [OF g(1) l [of 0 "[]"]]
    by (simp add: MaxPullRequestFiles_def g(2) w)
qed

end
